theory Spec2Isabelle
  imports Main
begin

section \<open>Python primitives used by the jitter buffer\<close>

text \<open>
  The exceptions the code of \<^verbatim>\<open>jitterbuffer.py\<close> can raise. Every operation of the
  model returns its outcome (a value, or the exception raised) together with the
  buffer as the call left it: an exception does not undo the assignments made before it.
\<close>

datatype error =
  AssertionError | TypeError | ZeroDivisionError | IndexError | UnboundLocalError

text \<open>\<^verbatim>\<open>range(n)\<close>: the integers \<open>0, ..., n - 1\<close>, none when \<open>n \<le> 0\<close>.\<close>

definition py_range :: "int \<Rightarrow> int list" where
  "py_range n = map int [0..<nat n]"

text \<open>\<^verbatim>\<open>a % b\<close> on integers: the sign of the divisor, as HOL's \<open>mod\<close>; zero divisor raises.\<close>

definition py_mod :: "int \<Rightarrow> int \<Rightarrow> error + int" where
  "py_mod a b = (if b = 0 then Inl ZeroDivisionError else Inr (a mod b))"

text \<open>List subscripts: a negative index counts from the end, anything else out of range raises.\<close>

definition py_index :: "nat \<Rightarrow> int \<Rightarrow> error + nat" where
  "py_index n i =
     (if 0 \<le> i \<and> i < int n then Inr (nat i)
      else if - int n \<le> i \<and> i < 0 then Inr (nat (int n + i))
      else Inl IndexError)"

definition py_getitem :: "'a list \<Rightarrow> int \<Rightarrow> error + 'a" where
  "py_getitem xs i = (case py_index (length xs) i of Inl e \<Rightarrow> Inl e | Inr k \<Rightarrow> Inr (xs ! k))"

definition py_setitem :: "'a list \<Rightarrow> int \<Rightarrow> 'a \<Rightarrow> error + 'a list" where
  "py_setitem xs i v = (case py_index (length xs) i of Inl e \<Rightarrow> Inl e | Inr k \<Rightarrow> Inr (xs[k := v]))"

section \<open>Data model\<close>

text \<open>
  Modelled from the spec: \<^verbatim>\<open>RtpPacket\<close> is imported from \<^verbatim>\<open>aiortc/rtp.py\<close>, which is
  not part of the sources at hand. The buffer reads five attributes of a packet:
  \<^verbatim>\<open>sequence_number\<close>, \<^verbatim>\<open>timestamp\<close>, \<^verbatim>\<open>ntp_timestamp\<close> (a \<^verbatim>\<open>datetime\<close>, carried
  through unchanged and represented here by an integer clock value), \<^verbatim>\<open>rtp_diff\<close> and
  the payload bytes \<^verbatim>\<open>_data\<close>. Integers are Python's unbounded integers.
\<close>

record rtp_packet =
  sequence_number :: int
  timestamp :: int
  ntp_timestamp :: int
  rtp_diff :: int
  payload :: string

text \<open>
  \<^verbatim>\<open>JitterFrame\<close> (lines 11-17). The field \<^verbatim>\<open>ntp_timestamp\<close> receives the local variable
  of \<^verbatim>\<open>_remove_frame\<close> that starts as \<^verbatim>\<open>None\<close> (line 70), hence the option.
\<close>

record jitter_frame =
  data :: string
  packets :: "rtp_packet list"
  frame_timestamp :: int
  frame_ntp_timestamp :: "int option"
  frame_rtp_diff :: int

text \<open>The attributes \<^verbatim>\<open>_capacity\<close>, \<^verbatim>\<open>_origin\<close>, \<^verbatim>\<open>_packets\<close>, \<^verbatim>\<open>_prefetch\<close> of \<^verbatim>\<open>JitterBuffer\<close>.\<close>

record jitter_buffer =
  capacity :: int
  origin :: "int option"
  buf_packets :: "rtp_packet option list"
  prefetch :: int

type_synonym 'a outcome = "(error + 'a) \<times> jitter_buffer"

definition MAX_MISORDER :: int where
  "MAX_MISORDER = 100"

section \<open>Construction (lines 28-33)\<close>

definition init :: "int \<Rightarrow> int \<Rightarrow> error + jitter_buffer" where
  "init cap pf =
     (if and cap (cap - 1) = 0
      then Inr \<lparr>capacity = cap, origin = None,
                buf_packets = map (\<lambda>i. None) (py_range cap), prefetch = pf\<rparr>
      else Inl AssertionError)"

section \<open>\<^verbatim>\<open>remove\<close> (lines 107-112)\<close>

text \<open>The loop body does not read the loop variable; it runs once per element of the range.\<close>

fun remove_loop :: "jitter_buffer \<Rightarrow> int list \<Rightarrow> unit outcome" where
  "remove_loop s [] = (Inr (), s)"
| "remove_loop s (i # rest) =
     (case origin s of
        None \<Rightarrow> (Inl TypeError, s)
      | Some og \<Rightarrow>
          (case py_mod og (capacity s) of
             Inl e \<Rightarrow> (Inl e, s)
           | Inr pos \<Rightarrow>
               (case py_setitem (buf_packets s) pos None of
                  Inl e \<Rightarrow> (Inl e, s)
                | Inr ps \<Rightarrow> remove_loop (s\<lparr>buf_packets := ps, origin := Some (og + 1)\<rparr>) rest)))"

definition remove :: "jitter_buffer \<Rightarrow> int \<Rightarrow> unit outcome" where
  "remove s count =
     (if count \<le> capacity s then remove_loop s (py_range count) else (Inl AssertionError, s))"

section \<open>\<^verbatim>\<open>_remove_frame\<close> (lines 64-105)\<close>

text \<open>
  The parameter \<^verbatim>\<open>sequence_number\<close> (here \<open>sn\<close>) is not read by the body.
  The local variables of \<^verbatim>\<open>_remove_frame\<close>. \<^verbatim>\<open>rtp_diff\<close> is unbound until the first packet
  is read (line 80), which \<open>None\<close> stands for.
\<close>

record rf_locals =
  l_frame :: "jitter_frame option"
  l_frames :: int
  l_packets :: "rtp_packet list"
  l_remove :: int
  l_timestamp :: "int option"
  l_ntp_timestamp :: "int option"
  l_rtp_diff :: "int option"

fun remove_frame_loop :: "jitter_buffer \<Rightarrow> rf_locals \<Rightarrow> int list \<Rightarrow> jitter_frame option outcome" where
  "remove_frame_loop s l [] = (Inr None, s)"
| "remove_frame_loop s l (count # rest) =
     (case origin s of
        None \<Rightarrow> (Inl TypeError, s)
      | Some og \<Rightarrow>
     (case py_mod (og + count) (capacity s) of
        Inl e \<Rightarrow> (Inl e, s)
      | Inr pos \<Rightarrow>
     (case py_getitem (buf_packets s) pos of
        Inl e \<Rightarrow> (Inl e, s)
      | Inr None \<Rightarrow> (Inr None, s)
      | Inr (Some packet) \<Rightarrow>
     (case l_timestamp l of
        None \<Rightarrow>
          remove_frame_loop s
            (l\<lparr>l_timestamp := Some (timestamp packet),
               l_ntp_timestamp := Some (ntp_timestamp packet),
               l_rtp_diff := Some (rtp_diff packet),
               l_packets := l_packets l @ [packet]\<rparr>) rest
      | Some ts \<Rightarrow>
          if timestamp packet \<noteq> ts then
            (case (case l_frame l of
                     Some f \<Rightarrow> Inr l
                   | None \<Rightarrow>
                       (case l_rtp_diff l of
                          None \<Rightarrow> Inl UnboundLocalError
                        | Some rd \<Rightarrow>
                            Inr (l\<lparr>l_frame := Some \<lparr>data = concat (map payload (l_packets l)),
                                                    packets = l_packets l,
                                                    frame_timestamp = ts,
                                                    frame_ntp_timestamp = l_ntp_timestamp l,
                                                    frame_rtp_diff = rd\<rparr>,
                                   l_remove := count\<rparr>))) of
               Inl e \<Rightarrow> (Inl e, s)
             | Inr l1 \<Rightarrow>
                 (let l2 = l1\<lparr>l_frames := l_frames l1 + 1\<rparr> in
                  if l_frames l2 \<ge> prefetch s then
                    (case remove s (l_remove l2) of
                       (Inl e, s') \<Rightarrow> (Inl e, s')
                     | (Inr u, s') \<Rightarrow> (Inr (l_frame l2), s'))
                  else
                    remove_frame_loop s
                      (l2\<lparr>l_packets := [packet], l_timestamp := Some (timestamp packet)\<rparr>) rest))
          else remove_frame_loop s (l\<lparr>l_packets := l_packets l @ [packet]\<rparr>) rest))))"

definition remove_frame :: "jitter_buffer \<Rightarrow> int \<Rightarrow> jitter_frame option outcome" where
  "remove_frame s sn =
     remove_frame_loop s
       \<lparr>l_frame = None, l_frames = 0, l_packets = [], l_remove = 0,
        l_timestamp = None, l_ntp_timestamp = None, l_rtp_diff = None\<rparr>
       (py_range (capacity s))"

section \<open>\<^verbatim>\<open>add\<close> (lines 39-62)\<close>

text \<open>
  Lines 40-46: establish the origin. The result is \<open>False\<close> when the packet is behind
  the origin and \<^verbatim>\<open>add\<close> returns \<^verbatim>\<open>None\<close> at once (line 46), \<open>True\<close> when it goes on.
\<close>

definition add_origin :: "jitter_buffer \<Rightarrow> rtp_packet \<Rightarrow> bool outcome" where
  "add_origin s packet =
     (case origin s of
        None \<Rightarrow> (Inr True, s\<lparr>origin := Some (sequence_number packet)\<rparr>)
      | Some og \<Rightarrow>
          if sequence_number packet \<le> og - MAX_MISORDER then
            (case remove s (capacity s) of
               (Inl e, s') \<Rightarrow> (Inl e, s')
             | (Inr u, s') \<Rightarrow> (Inr True, s'\<lparr>origin := Some (sequence_number packet)\<rparr>))
          else if sequence_number packet < og then (Inr False, s)
          else (Inr True, s))"

text \<open>Lines 48-57: make the packet fit the window.\<close>

definition add_fit :: "jitter_buffer \<Rightarrow> rtp_packet \<Rightarrow> unit outcome" where
  "add_fit s packet =
     (case origin s of
        None \<Rightarrow> (Inl TypeError, s)
      | Some og \<Rightarrow>
          (let delta = sequence_number packet - og in
           if delta \<ge> 2 * capacity s then
             (case remove s (capacity s) of
                (Inl e, s') \<Rightarrow> (Inl e, s')
              | (Inr u, s') \<Rightarrow> (Inr (), s'\<lparr>origin := Some (sequence_number packet)\<rparr>))
           else if delta \<ge> capacity s then
             (let excess = delta - capacity s + 1 in remove s excess)
           else (Inr (), s)))"

definition add :: "jitter_buffer \<Rightarrow> rtp_packet \<Rightarrow> jitter_frame option outcome" where
  "add s packet =
     (case add_origin s packet of
        (Inl e, s1) \<Rightarrow> (Inl e, s1)
      | (Inr False, s1) \<Rightarrow> (Inr None, s1)
      | (Inr True, s1) \<Rightarrow>
     (case add_fit s1 packet of
        (Inl e, s2) \<Rightarrow> (Inl e, s2)
      | (Inr u, s2) \<Rightarrow>
     (case py_mod (sequence_number packet) (capacity s2) of
        Inl e \<Rightarrow> (Inl e, s2)
      | Inr pos \<Rightarrow>
     (case py_setitem (buf_packets s2) pos (Some packet) of
        Inl e \<Rightarrow> (Inl e, s2)
      | Inr ps \<Rightarrow> remove_frame (s2\<lparr>buf_packets := ps\<rparr>) (sequence_number packet)))))"

section \<open>Callers\<close>

text \<open>
  A caller feeding packets one by one: the outcome of every \<^verbatim>\<open>add\<close> call, with the buffer
  as that call left it. A caller that does not catch an exception stops at the first one;
  the trace keeps going on the buffer as it is, which covers the caller that catches it.
\<close>

fun add_all :: "jitter_buffer \<Rightarrow> rtp_packet list \<Rightarrow> jitter_frame option outcome list" where
  "add_all s [] = []"
| "add_all s (p # ps) = (case add s p of (r, s') \<Rightarrow> (r, s') # add_all s' ps)"

text \<open>
  The buffers a program can hold: a constructed one, and whatever a call of the public
  methods \<^verbatim>\<open>add\<close> and \<^verbatim>\<open>remove\<close> leaves behind, whether it returned or raised.
\<close>

inductive reachable :: "jitter_buffer \<Rightarrow> bool" where
  reachable_init: "init cap pf = Inr s \<Longrightarrow> reachable s"
| reachable_add: "reachable s \<Longrightarrow> add s p = (r, s') \<Longrightarrow> reachable s'"
| reachable_remove: "reachable s \<Longrightarrow> remove s n = (r, s') \<Longrightarrow> reachable s'"

section \<open>Predicates used in the statements and proofs\<close>

text \<open>A buffer with at least one slot whose slot list has the length the constructor gave it.\<close>

definition well_formed :: "jitter_buffer \<Rightarrow> bool" where
  "well_formed s \<longleftrightarrow> 0 < capacity s \<and> length (buf_packets s) = nat (capacity s)"

text \<open>The window invariant: a stored packet lies in the window that starts at the origin, at the
  index its sequence number selects.\<close>

definition window_inv :: "jitter_buffer \<Rightarrow> bool" where
  "window_inv s \<longleftrightarrow>
     (\<forall>i<length (buf_packets s). \<forall>q. buf_packets s ! i = Some q \<longrightarrow>
        (\<exists>og. origin s = Some og \<and> og \<le> sequence_number q \<and>
              sequence_number q < og + capacity s \<and>
              int i = sequence_number q mod capacity s))"

text \<open>Index \<open>i\<close> is one of the \<open>n\<close> slots that \<^verbatim>\<open>remove(n)\<close> clears when the origin is \<open>og\<close>.\<close>

definition cleared :: "int \<Rightarrow> int \<Rightarrow> nat \<Rightarrow> nat \<Rightarrow> bool" where
  "cleared c og n i \<longleftrightarrow> (\<exists>j<n. int i = (og + int j) mod c)"

text \<open>The content of the slot that sequence number \<open>t\<close> selects (for a buffer with a positive
  capacity and a slot list of that length).\<close>

definition slot :: "jitter_buffer \<Rightarrow> int \<Rightarrow> rtp_packet option" where
  "slot s t = buf_packets s ! nat (t mod capacity s)"

text \<open>A frame made of fewer than \<open>c\<close> packets, all with sequence numbers in the first
  \<open>length (packets f)\<close> positions of the window that starts at \<open>og\<close>.\<close>

definition frame_ok :: "int \<Rightarrow> int \<Rightarrow> jitter_frame \<Rightarrow> bool" where
  "frame_ok c og f \<longleftrightarrow>
     int (length (packets f)) < c \<and>
     (\<forall>q\<in>set (packets f). og \<le> sequence_number q \<and>
        sequence_number q < og + int (length (packets f)))"

text \<open>The slots of a frame's packets, and the slot of the packet that closed the frame, are
  occupied: the positions \<open>0, ..., length (packets f)\<close> of the window that starts at \<open>og\<close>.\<close>

definition frame_run :: "jitter_buffer \<Rightarrow> int \<Rightarrow> jitter_frame \<Rightarrow> bool" where
  "frame_run s og f \<longleftrightarrow> (\<forall>j\<le>length (packets f). slot s (og + int j) \<noteq> None)"

text \<open>The invariant of the loop of \<^verbatim>\<open>_remove_frame\<close> before it reads position \<open>k\<close> of the window.\<close>

definition scan_inv :: "jitter_buffer \<Rightarrow> int \<Rightarrow> rf_locals \<Rightarrow> nat \<Rightarrow> bool" where
  "scan_inv s og l k \<longleftrightarrow>
     (l_timestamp l \<noteq> None \<longrightarrow> l_rtp_diff l \<noteq> None) \<and>
     (\<forall>j<k. slot s (og + int j) \<noteq> None) \<and>
     (case l_frame l of
        None \<Rightarrow> length (l_packets l) = k \<and>
                (\<forall>q\<in>set (l_packets l). og \<le> sequence_number q \<and> sequence_number q < og + int k)
      | Some f \<Rightarrow> l_remove l = int (length (packets f)) \<and> frame_ok (capacity s) og f \<and>
                  frame_run s og f)"

text \<open>What holds of every reachable buffer; the constructor accepts capacity 0, which gives no slot.\<close>

definition buffer_inv :: "jitter_buffer \<Rightarrow> bool" where
  "buffer_inv s \<longleftrightarrow>
     0 \<le> capacity s \<and> length (buf_packets s) = nat (capacity s) \<and> window_inv s"

text \<open>Two buffers that agree on everything except, possibly, \<^verbatim>\<open>_prefetch\<close>.\<close>

definition same_window :: "jitter_buffer \<Rightarrow> jitter_buffer \<Rightarrow> bool" where
  "same_window s t \<longleftrightarrow>
     capacity s = capacity t \<and> origin s = origin t \<and> buf_packets s = buf_packets t"

text \<open>Two outcomes with the same result whose buffers agree except for \<^verbatim>\<open>_prefetch\<close>.\<close>

definition same_outcome :: "'a outcome \<Rightarrow> 'a outcome \<Rightarrow> bool" where
  "same_outcome x y \<longleftrightarrow> fst x = fst y \<and> same_window (snd x) (snd y)"

text \<open>Packets for the concrete instances below.\<close>

definition test_packet :: "int \<Rightarrow> int \<Rightarrow> string \<Rightarrow> rtp_packet" where
  "test_packet sn ts d =
     \<lparr>sequence_number = sn, timestamp = ts, ntp_timestamp = 0, rtp_diff = 0, payload = d\<rparr>"

section \<open>Auxiliary lemmas\<close>

subsection \<open>Python primitives on a well-formed buffer\<close>

lemma length_py_range [simp]: "length (py_range n) = nat n"
  by (simp add: py_range_def)

lemma pow2_and_pred: "and ((2::int) ^ k) (2 ^ k - 1) = 0"
proof -
  have "and ((2::int) ^ k) (mask k) = 0"
    by (rule bit_eqI) (simp add: bit_and_iff bit_exp_iff bit_mask_iff)
  then show ?thesis by (simp add: mask_eq_exp_minus_1)
qed

lemma py_setitem_length: "py_setitem xs i v = Inr ys \<Longrightarrow> length ys = length xs"
  by (auto simp: py_setitem_def split: sum.splits)

lemma py_index_in: "0 \<le> i \<Longrightarrow> i < int n \<Longrightarrow> py_index n i = Inr (nat i)"
  by (simp add: py_index_def)

lemma py_mod_pos: "0 < c \<Longrightarrow> py_mod a c = Inr (a mod c)"
  by (simp add: py_mod_def)

lemma slot_setitem:
  "0 < c \<Longrightarrow> length xs = nat c \<Longrightarrow> py_setitem xs (a mod c) v = Inr (xs[nat (a mod c) := v])"
  by (simp add: py_setitem_def py_index_in)

lemma slot_getitem:
  "0 < c \<Longrightarrow> length xs = nat c \<Longrightarrow> py_getitem xs (a mod c) = Inr (xs ! nat (a mod c))"
  by (simp add: py_getitem_def py_index_in)

subsection \<open>What \<^verbatim>\<open>remove\<close> does\<close>

lemma remove_loop_struct:
  "remove_loop s is = (r, s') \<Longrightarrow>
     capacity s' = capacity s \<and> prefetch s' = prefetch s \<and>
     length (buf_packets s') = length (buf_packets s)"
proof (induction "is" arbitrary: s)
  case Nil
  then show ?case by simp
next
  case (Cons a rest)
  then show ?case
    by (fastforce split: option.splits sum.splits dest: py_setitem_length)
qed

lemma remove_struct:
  "remove s n = (r, s') \<Longrightarrow>
     capacity s' = capacity s \<and> prefetch s' = prefetch s \<and>
     length (buf_packets s') = length (buf_packets s)"
  by (auto simp: remove_def split: if_splits dest: remove_loop_struct)

lemma ex_less_Suc_shift:
  "(\<exists>j<Suc n. int i = (og + int j) mod c) \<longleftrightarrow>
     int i = og mod c \<or> (\<exists>j<n. int i = (og + 1 + int j) mod c)"
  (is "?L \<longleftrightarrow> ?R")
proof
  assume ?L
  then obtain j where j: "j < Suc n" "int i = (og + int j) mod c" by auto
  show ?R
  proof (cases j)
    case 0
    with j show ?thesis by simp
  next
    case (Suc j')
    with j have "j' < n" "int i = (og + 1 + int j') mod c"
      by (simp_all add: algebra_simps)
    then show ?thesis by blast
  qed
next
  assume ?R
  then show ?L
  proof
    assume "int i = og mod c"
    then have "0 < Suc n \<and> int i = (og + int 0) mod c" by simp
    then show ?L by blast
  next
    assume "\<exists>j<n. int i = (og + 1 + int j) mod c"
    then obtain j where "j < n" "int i = (og + 1 + int j) mod c" by blast
    then have "Suc j < Suc n \<and> int i = (og + int (Suc j)) mod c"
      by (simp add: algebra_simps)
    then show ?L by blast
  qed
qed

lemma cleared_Suc: "cleared c og (Suc n) i \<longleftrightarrow> int i = og mod c \<or> cleared c (og + 1) n i"
  unfolding cleared_def by (rule ex_less_Suc_shift)

lemma cleared_0 [simp]: "\<not> cleared c og 0 i"
  by (simp add: cleared_def)

lemma remove_loop_wf:
  assumes "well_formed s" "origin s = Some og"
  shows "\<exists>ps. remove_loop s is =
            (Inr (), s\<lparr>buf_packets := ps, origin := Some (og + int (length is))\<rparr>) \<and>
          length ps = length (buf_packets s) \<and>
          (\<forall>i<length ps. cleared (capacity s) og (length is) i \<longrightarrow> ps ! i = None) \<and>
          (\<forall>i<length ps. \<not> cleared (capacity s) og (length is) i \<longrightarrow> ps ! i = buf_packets s ! i)"
  using assms
proof (induction "is" arbitrary: s og)
  case Nil
  then show ?case by (intro exI [of _ "buf_packets s"]) simp
next
  case (Cons a rest)
  let ?c = "capacity s"
  let ?s1 = "s\<lparr>buf_packets := (buf_packets s)[nat (og mod ?c) := None], origin := Some (og + 1)\<rparr>"
  from Cons.prems have c: "0 < ?c" and len: "length (buf_packets s) = nat ?c"
    by (simp_all add: well_formed_def)
  have step: "remove_loop s (a # rest) = remove_loop ?s1 rest"
    using Cons.prems c len by (simp add: py_mod_pos slot_setitem)
  have wf1: "well_formed ?s1" using c len by (simp add: well_formed_def)
  have o1: "origin ?s1 = Some (og + 1)" by simp
  from Cons.IH [OF wf1 o1, simplified] obtain ps where
    run: "remove_loop ?s1 rest = (Inr (), s\<lparr>buf_packets := ps, origin := Some (og + 1 + int (length rest))\<rparr>)"
    and lps: "length ps = length (buf_packets s)"
    and c1: "\<forall>i<length ps. cleared ?c (og + 1) (length rest) i \<longrightarrow> ps ! i = None"
    and c2: "\<forall>i<length ps. \<not> cleared ?c (og + 1) (length rest) i \<longrightarrow>
               ps ! i = (buf_packets s)[nat (og mod ?c) := None] ! i"
    by blast
  have eq0: "nat (og mod ?c) = i \<longleftrightarrow> int i = og mod ?c" for i
    using c by (auto simp: nat_eq_iff)
  have "remove_loop s (a # rest) =
     (Inr (), s\<lparr>buf_packets := ps, origin := Some (og + int (length (a # rest)))\<rparr>)"
    using step run by (simp add: algebra_simps)
  moreover have "\<forall>i<length ps. cleared ?c og (length (a # rest)) i \<longrightarrow> ps ! i = None"
  proof (intro allI impI)
    fix i assume i: "i < length ps" and cl: "cleared ?c og (length (a # rest)) i"
    show "ps ! i = None"
    proof (cases "cleared ?c (og + 1) (length rest) i")
      case True
      with c1 i show ?thesis by blast
    next
      case False
      with cl have "nat (og mod ?c) = i" by (simp add: cleared_Suc eq0)
      moreover from False c2 i have "ps ! i = (buf_packets s)[nat (og mod ?c) := None] ! i"
        by blast
      ultimately show ?thesis using i lps by simp
    qed
  qed
  moreover have "\<forall>i<length ps. \<not> cleared ?c og (length (a # rest)) i \<longrightarrow> ps ! i = buf_packets s ! i"
  proof (intro allI impI)
    fix i assume i: "i < length ps" and cl: "\<not> cleared ?c og (length (a # rest)) i"
    then have n1: "\<not> cleared ?c (og + 1) (length rest) i" and n0: "nat (og mod ?c) \<noteq> i"
      by (simp_all add: cleared_Suc eq0)
    from n1 c2 i have "ps ! i = (buf_packets s)[nat (og mod ?c) := None] ! i" by blast
    with n0 show "ps ! i = buf_packets s ! i" by simp
  qed
  ultimately show ?case using lps by blast
qed

lemma remove_wf:
  assumes "well_formed s" "origin s = Some og" "n \<le> capacity s"
  shows "\<exists>ps. remove s n = (Inr (), s\<lparr>buf_packets := ps, origin := Some (og + int (nat n))\<rparr>) \<and>
          length ps = length (buf_packets s) \<and>
          (\<forall>i<length ps. cleared (capacity s) og (nat n) i \<longrightarrow> ps ! i = None) \<and>
          (\<forall>i<length ps. \<not> cleared (capacity s) og (nat n) i \<longrightarrow> ps ! i = buf_packets s ! i)"
  using remove_loop_wf [OF assms(1,2), of "py_range n"] assms(3)
  by (simp add: remove_def)

lemma cleared_all:
  assumes "0 < c" "i < nat c"
  shows "cleared c og (nat c) i"
proof -
  let ?j = "nat ((int i - og) mod c)"
  have "?j < nat c" using assms by simp
  moreover have "int i = (og + int ?j) mod c"
  proof -
    have "(og + int ?j) mod c = (og + (int i - og) mod c) mod c" using assms by simp
    also have "\<dots> = (og + (int i - og)) mod c" by (simp add: mod_add_right_eq)
    also have "\<dots> = int i" using assms by simp
    finally show ?thesis by simp
  qed
  ultimately show ?thesis unfolding cleared_def by blast
qed

lemma remove_all:
  assumes "well_formed s" "origin s = Some og"
  shows "remove s (capacity s) =
           (Inr (), s\<lparr>buf_packets := replicate (nat (capacity s)) None,
                        origin := Some (og + capacity s)\<rparr>)"
proof -
  from assms have c: "0 < capacity s" and len: "length (buf_packets s) = nat (capacity s)"
    by (simp_all add: well_formed_def)
  from remove_wf [OF assms, of "capacity s"] obtain ps where
    run: "remove s (capacity s) = (Inr (), s\<lparr>buf_packets := ps, origin := Some (og + int (nat (capacity s)))\<rparr>)"
    and lps: "length ps = length (buf_packets s)"
    and c1: "\<forall>i<length ps. cleared (capacity s) og (nat (capacity s)) i \<longrightarrow> ps ! i = None"
    by auto
  have "ps = replicate (nat (capacity s)) None"
  proof (rule nth_equalityI)
    show "length ps = length (replicate (nat (capacity s)) None)" using lps len by simp
  next
    fix i assume "i < length ps"
    then show "ps ! i = replicate (nat (capacity s)) None ! i"
      using c1 lps len cleared_all [OF c] by simp
  qed
  with run c show ?thesis by simp
qed

lemma remove_window_inv:
  assumes wf: "well_formed s" and inv: "window_inv s" and og: "origin s = Some og"
    and n: "n \<le> capacity s" and run: "remove s n = (r, s')"
  shows "r = Inr () \<and> well_formed s' \<and> window_inv s' \<and> origin s' = Some (og + int (nat n)) \<and>
         capacity s' = capacity s \<and> prefetch s' = prefetch s"
proof -
  let ?c = "capacity s"
  from wf have c: "0 < ?c" and len: "length (buf_packets s) = nat ?c"
    by (simp_all add: well_formed_def)
  from remove_wf [OF wf og n] run obtain ps where
    s': "s' = s\<lparr>buf_packets := ps, origin := Some (og + int (nat n))\<rparr>" and r: "r = Inr ()"
    and lps: "length ps = length (buf_packets s)"
    and c1: "\<forall>i<length ps. cleared ?c og (nat n) i \<longrightarrow> ps ! i = None"
    and c2: "\<forall>i<length ps. \<not> cleared ?c og (nat n) i \<longrightarrow> ps ! i = buf_packets s ! i"
    by auto
  have "window_inv s'"
    unfolding window_inv_def
  proof (intro allI impI)
    fix i q assume i: "i < length (buf_packets s')" and q: "buf_packets s' ! i = Some q"
    from i s' have i': "i < length ps" by simp
    from q s' have q': "ps ! i = Some q" by simp
    have ncl: "\<not> cleared ?c og (nat n) i"
    proof
      assume "cleared ?c og (nat n) i"
      with c1 i' have "ps ! i = None" by blast
      with q' show False by simp
    qed
    with c2 i' q' have old: "buf_packets s ! i = Some q" by simp
    with inv i' lps og have lo: "og \<le> sequence_number q"
      and hi: "sequence_number q < og + ?c" and pos: "int i = sequence_number q mod ?c"
      unfolding window_inv_def by fastforce+
    have "og + int (nat n) \<le> sequence_number q"
    proof (rule ccontr)
      assume "\<not> og + int (nat n) \<le> sequence_number q"
      then have lt: "sequence_number q < og + int (nat n)" by simp
      let ?j = "nat (sequence_number q - og)"
      have "?j < nat n" using lt lo by linarith
      moreover have "int i = (og + int ?j) mod ?c" using lo pos by simp
      ultimately have "cleared ?c og (nat n) i" unfolding cleared_def by blast
      with ncl show False by contradiction
    qed
    moreover have "sequence_number q < og + int (nat n) + ?c" using hi by simp
    ultimately show "\<exists>og'. origin s' = Some og' \<and> og' \<le> sequence_number q \<and>
              sequence_number q < og' + capacity s' \<and>
              int i = sequence_number q mod capacity s'"
      using s' pos by simp
  qed
  moreover have "well_formed s'" using s' c len lps by (simp add: well_formed_def)
  ultimately show ?thesis using r s' by simp
qed

subsection \<open>The scan of \<^verbatim>\<open>_remove_frame\<close>\<close>

lemma remove_frame_loop_struct:
  "remove_frame_loop s l counts = (r, s') \<Longrightarrow>
     capacity s' = capacity s \<and> prefetch s' = prefetch s \<and>
     length (buf_packets s') = length (buf_packets s)"
proof (induction counts arbitrary: l)
  case Nil
  then show ?case by simp
next
  case (Cons count rest)
  show ?case
    using Cons.prems
    by (auto simp: Let_def split: option.splits sum.splits if_splits prod.splits
          dest: remove_struct Cons.IH)
qed

lemma loop_step_empty:
  assumes "well_formed s" "origin s = Some og" "slot s (og + count) = None"
  shows "remove_frame_loop s l (count # rest) = (Inr None, s)"
  using assms by (simp add: well_formed_def slot_def py_mod_pos slot_getitem)

lemma loop_step_first:
  assumes "well_formed s" "origin s = Some og" "slot s (og + count) = Some q" "l_timestamp l = None"
  shows "remove_frame_loop s l (count # rest) =
         remove_frame_loop s
            (l\<lparr>l_timestamp := Some (timestamp q),
               l_ntp_timestamp := Some (ntp_timestamp q),
               l_rtp_diff := Some (rtp_diff q),
               l_packets := l_packets l @ [q]\<rparr>) rest"
  using assms by (simp add: well_formed_def slot_def py_mod_pos slot_getitem)

lemma loop_step_same:
  assumes "well_formed s" "origin s = Some og" "slot s (og + count) = Some q"
    "l_timestamp l = Some (timestamp q)"
  shows "remove_frame_loop s l (count # rest) =
         remove_frame_loop s (l\<lparr>l_packets := l_packets l @ [q]\<rparr>) rest"
  using assms by (simp add: well_formed_def slot_def py_mod_pos slot_getitem)

lemma loop_step_boundary_held:
  assumes "well_formed s" "origin s = Some og" "slot s (og + count) = Some q"
    "l_timestamp l = Some ts" "timestamp q \<noteq> ts" "l_frame l = Some f"
  shows "remove_frame_loop s l (count # rest) =
         (if prefetch s \<le> l_frames l + 1 then
            (case remove s (l_remove l) of
               (Inl e, s') \<Rightarrow> (Inl e, s')
             | (Inr u, s') \<Rightarrow> (Inr (Some f), s'))
          else remove_frame_loop s
                 (l\<lparr>l_frames := l_frames l + 1, l_packets := [q],
                    l_timestamp := Some (timestamp q)\<rparr>) rest)"
  using assms by (simp add: well_formed_def slot_def py_mod_pos slot_getitem split: prod.splits sum.splits)

lemma loop_step_boundary_new:
  assumes "well_formed s" "origin s = Some og" "slot s (og + count) = Some q"
    "l_timestamp l = Some ts" "timestamp q \<noteq> ts" "l_frame l = None" "l_rtp_diff l = Some rd"
  shows "remove_frame_loop s l (count # rest) =
         (if prefetch s \<le> l_frames l + 1 then
            (case remove s count of
               (Inl e, s') \<Rightarrow> (Inl e, s')
             | (Inr u, s') \<Rightarrow>
                 (Inr (Some \<lparr>data = concat (map payload (l_packets l)),
                              packets = l_packets l,
                              frame_timestamp = ts,
                              frame_ntp_timestamp = l_ntp_timestamp l,
                              frame_rtp_diff = rd\<rparr>), s'))
          else remove_frame_loop s
                 (l\<lparr>l_frame := Some \<lparr>data = concat (map payload (l_packets l)),
                              packets = l_packets l,
                              frame_timestamp = ts,
                              frame_ntp_timestamp = l_ntp_timestamp l,
                              frame_rtp_diff = rd\<rparr>,
                    l_remove := count,
                    l_frames := l_frames l + 1, l_packets := [q],
                    l_timestamp := Some (timestamp q)\<rparr>) rest)"
  using assms by (simp add: well_formed_def slot_def py_mod_pos slot_getitem split: prod.splits sum.splits)

declare remove_frame_loop.simps(2) [simp del]

lemma window_slot_seq:
  assumes "well_formed s" "window_inv s" "origin s = Some og" "0 \<le> j" "j < capacity s"
    "slot s (og + j) = Some q"
  shows "sequence_number q = og + j"
proof -
  let ?c = "capacity s"
  let ?i = "nat ((og + j) mod ?c)"
  from assms(1) have c: "0 < ?c" and len: "length (buf_packets s) = nat ?c"
    by (simp_all add: well_formed_def)
  have i: "?i < length (buf_packets s)" using c len by simp
  from assms(6) have "buf_packets s ! ?i = Some q" by (simp add: slot_def)
  with assms(2,3) i have lo: "og \<le> sequence_number q"
    and hi: "sequence_number q < og + ?c" and pos: "int ?i = sequence_number q mod ?c"
    unfolding window_inv_def by fastforce+
  from pos c have "(og + j) mod ?c = sequence_number q mod ?c" by simp
  then have "(og + j - og) mod ?c = (sequence_number q - og) mod ?c"
    by (rule mod_diff_cong) simp
  moreover have "(og + j - og) mod ?c = j" using assms(4,5) by simp
  moreover have "(sequence_number q - og) mod ?c = sequence_number q - og"
    using lo hi by simp
  ultimately show ?thesis by simp
qed

lemma scan_loop:
  assumes wf: "well_formed s" and inv: "window_inv s" and og: "origin s = Some og"
  shows "k \<le> nat (capacity s) \<Longrightarrow> scan_inv s og l k \<Longrightarrow>
     \<exists>r s'. remove_frame_loop s l (map int [k..<nat (capacity s)]) = (Inr r, s') \<and>
       (case r of
          None \<Rightarrow> s' = s
        | Some f \<Rightarrow> remove s (int (length (packets f))) = (Inr (), s') \<and>
                    frame_ok (capacity s) og f \<and> frame_run s og f)"
proof (induction "nat (capacity s) - k" arbitrary: k l)
  case 0
  then show ?case by simp
next
  case (Suc n)
  let ?c = "capacity s"
  let ?rest = "map int [Suc k..<nat ?c]"
  from Suc.hyps(2) have k: "k < nat ?c" by simp
  then have unf: "map int [k..<nat ?c] = int k # ?rest" by (simp add: upt_conv_Cons)
  have n: "n = nat ?c - Suc k" using Suc.hyps(2) by simp
  have k': "Suc k \<le> nat ?c" using k by simp
  note IH = Suc.hyps(1) [OF n k']
  from wf have c: "0 < ?c" by (simp add: well_formed_def)
  have kc: "int k < ?c" using k by simp
  show ?case
  proof (cases "slot s (og + int k)")
    case None
    show ?thesis unfolding unf loop_step_empty [OF wf og None] by simp
  next
    case (Some q)
    have sq: "sequence_number q = og + int k"
      using window_slot_seq [OF wf inv og _ kc Some] by simp
    show ?thesis
    proof (cases "l_timestamp l")
      case None
      let ?l' = "l\<lparr>l_timestamp := Some (timestamp q),
               l_ntp_timestamp := Some (ntp_timestamp q),
               l_rtp_diff := Some (rtp_diff q),
               l_packets := l_packets l @ [q]\<rparr>"
      have "scan_inv s og ?l' (Suc k)"
        using Suc.prems(2) sq Some by (auto simp: scan_inv_def less_Suc_eq split: option.splits)
      from IH [OF this] show ?thesis
        unfolding unf loop_step_first [OF wf og Some None] .
    next
      case ts: (Some ts)
      show ?thesis
      proof (cases "timestamp q = ts")
        case True
        let ?l' = "l\<lparr>l_packets := l_packets l @ [q]\<rparr>"
        have "scan_inv s og ?l' (Suc k)"
          using Suc.prems(2) sq Some by (auto simp: scan_inv_def less_Suc_eq split: option.splits)
        from IH [OF this] show ?thesis
          unfolding unf using loop_step_same [OF wf og Some] ts True by simp
      next
        case False
        from Suc.prems(2) ts obtain rd where rd: "l_rtp_diff l = Some rd"
          by (auto simp: scan_inv_def)
        from Suc.prems(2) have run: "\<forall>j<k. slot s (og + int j) \<noteq> None"
          by (simp add: scan_inv_def)
        with Some have run': "\<forall>j<Suc k. slot s (og + int j) \<noteq> None"
          by (simp add: less_Suc_eq)
        show ?thesis
        proof (cases "l_frame l")
          case None
          let ?f = "\<lparr>data = concat (map payload (l_packets l)),
                              packets = l_packets l,
                              frame_timestamp = ts,
                              frame_ntp_timestamp = l_ntp_timestamp l,
                              frame_rtp_diff = rd\<rparr>"
          from Suc.prems(2) None have lp: "length (l_packets l) = k"
            and seqs: "\<forall>q\<in>set (l_packets l). og \<le> sequence_number q \<and> sequence_number q < og + int k"
            by (simp_all add: scan_inv_def)
          have fok: "frame_ok ?c og ?f" using lp seqs kc by (simp add: frame_ok_def)
          have frun: "frame_run s og ?f" using run' lp by (simp add: frame_run_def less_Suc_eq_le)
          note step = loop_step_boundary_new [OF wf og Some ts False None rd]
          show ?thesis
          proof (cases "prefetch s \<le> l_frames l + 1")
            case True
            from remove_wf [OF wf og, of "int k"] kc obtain s' where
              rm: "remove s (int k) = (Inr (), s')" by auto
            show ?thesis
              unfolding unf step using True rm fok frun lp by simp
          next
            case nope: False
            let ?l' = "l\<lparr>l_frame := Some ?f, l_remove := int k,
                    l_frames := l_frames l + 1, l_packets := [q],
                    l_timestamp := Some (timestamp q)\<rparr>"
            have "scan_inv s og ?l' (Suc k)"
              using fok frun rd lp run' by (simp add: scan_inv_def)
            from IH [OF this] show ?thesis
              unfolding unf step using nope by simp
          qed
        next
          case held: (Some f)
          from Suc.prems(2) held have lr: "l_remove l = int (length (packets f))"
            and fok: "frame_ok ?c og f" and frun: "frame_run s og f"
            by (simp_all add: scan_inv_def)
          note step = loop_step_boundary_held [OF wf og Some ts False held]
          show ?thesis
          proof (cases "prefetch s \<le> l_frames l + 1")
            case True
            from fok have "int (length (packets f)) \<le> ?c" by (simp add: frame_ok_def)
            from remove_wf [OF wf og this] obtain s' where
              rm: "remove s (int (length (packets f))) = (Inr (), s')" by auto
            show ?thesis
              unfolding unf step using True rm fok frun lr by simp
          next
            case nope: False
            let ?l' = "l\<lparr>l_frames := l_frames l + 1, l_packets := [q],
                    l_timestamp := Some (timestamp q)\<rparr>"
            have "scan_inv s og ?l' (Suc k)"
              using fok frun lr held rd run' by (simp add: scan_inv_def)
            from IH [OF this] show ?thesis
              unfolding unf step using nope by simp
          qed
        qed
      qed
    qed
  qed
qed

lemma remove_frame_wf:
  assumes wf: "well_formed s" and inv: "window_inv s" and og: "origin s = Some og"
  shows "\<exists>r s'. remove_frame s sn = (Inr r, s') \<and>
       (case r of
          None \<Rightarrow> s' = s
        | Some f \<Rightarrow> remove s (int (length (packets f))) = (Inr (), s') \<and>
                    frame_ok (capacity s) og f \<and> frame_run s og f)"
proof -
  have "scan_inv s og
          \<lparr>l_frame = None, l_frames = 0, l_packets = [], l_remove = 0,
           l_timestamp = None, l_ntp_timestamp = None, l_rtp_diff = None\<rparr> 0"
    by (simp add: scan_inv_def)
  from scan_loop [OF wf inv og _ this] show ?thesis
    by (simp add: remove_frame_def py_range_def)
qed

subsection \<open>What \<^verbatim>\<open>add\<close> does to a well-formed buffer\<close>

lemma window_inv_empty:
  "\<forall>i<length (buf_packets s). buf_packets s ! i = None \<Longrightarrow> window_inv s"
  by (simp add: window_inv_def)

lemma window_inv_replicate [simp]:
  "window_inv (s\<lparr>buf_packets := replicate n None, origin := x\<rparr>)"
  by (simp add: window_inv_def)

lemma window_inv_no_origin:
  assumes "window_inv s" "origin s = None"
  shows "window_inv (s\<lparr>origin := x\<rparr>)"
  using assms by (auto simp: window_inv_def)

lemma add_origin_wf:
  assumes wf: "well_formed s" and inv: "window_inv s"
  shows "(add_origin s p = (Inr False, s) \<and>
          (\<exists>og. origin s = Some og \<and> og - MAX_MISORDER < sequence_number p \<and>
                 sequence_number p < og)) \<or>
         (\<exists>s1 og1. add_origin s p = (Inr True, s1) \<and> well_formed s1 \<and> window_inv s1 \<and>
            origin s1 = Some og1 \<and> og1 \<le> sequence_number p \<and>
            capacity s1 = capacity s \<and> prefetch s1 = prefetch s)"
proof (cases "origin s")
  case None
  then have "add_origin s p = (Inr True, s\<lparr>origin := Some (sequence_number p)\<rparr>)"
    by (simp add: add_origin_def)
  moreover have "well_formed (s\<lparr>origin := Some (sequence_number p)\<rparr>)" using wf by (simp add: well_formed_def)
  moreover note window_inv_no_origin [OF inv None, of "Some (sequence_number p)"]
  ultimately show ?thesis by simp
next
  case (Some og)
  show ?thesis
  proof (cases "sequence_number p \<le> og - MAX_MISORDER")
    case True
    let ?s1 = "s\<lparr>buf_packets := replicate (nat (capacity s)) None,
                   origin := Some (sequence_number p)\<rparr>"
    have "add_origin s p = (Inr True, ?s1)"
      using Some True remove_all [OF wf Some] by (simp add: add_origin_def)
    moreover have "well_formed ?s1" using wf by (simp add: well_formed_def)
    ultimately show ?thesis by simp
  next
    case False
    show ?thesis
    proof (cases "sequence_number p < og")
      case True
      with False Some show ?thesis by (simp add: add_origin_def)
    next
      case ge: False
      with False Some have "add_origin s p = (Inr True, s)" by (simp add: add_origin_def)
      with wf inv Some ge show ?thesis by simp
    qed
  qed
qed

lemma add_fit_wf:
  assumes wf: "well_formed s" and inv: "window_inv s" and og: "origin s = Some og"
    and le: "og \<le> sequence_number p"
  shows "\<exists>s2 og2. add_fit s p = (Inr (), s2) \<and> well_formed s2 \<and> window_inv s2 \<and>
            origin s2 = Some og2 \<and> og2 \<le> sequence_number p \<and>
            sequence_number p < og2 + capacity s2 \<and>
            capacity s2 = capacity s \<and> prefetch s2 = prefetch s"
proof -
  let ?c = "capacity s"
  let ?d = "sequence_number p - og"
  from wf have c: "0 < ?c" by (simp add: well_formed_def)
  consider (flush) "2 * ?c \<le> ?d" | (evict) "?c \<le> ?d" "?d < 2 * ?c" | (fit) "?d < ?c"
    by linarith
  then show ?thesis
  proof cases
    case flush
    let ?s2 = "s\<lparr>buf_packets := replicate (nat ?c) None, origin := Some (sequence_number p)\<rparr>"
    have "add_fit s p = (Inr (), ?s2)"
      using og flush remove_all [OF wf og] by (simp add: add_fit_def)
    moreover have "well_formed ?s2" using wf by (simp add: well_formed_def)
    ultimately show ?thesis using c by simp
  next
    case evict
    obtain r s2 where rm: "remove s (?d - ?c + 1) = (r, s2)" by (cases "remove s (?d - ?c + 1)")
    have n: "?d - ?c + 1 \<le> ?c" using evict by simp
    from remove_window_inv [OF wf inv og n rm]
    have "r = Inr ()" "well_formed s2" "window_inv s2" "origin s2 = Some (og + int (nat (?d - ?c + 1)))"
      "capacity s2 = ?c" "prefetch s2 = prefetch s" by simp_all
    moreover have "add_fit s p = (r, s2)"
      using og evict rm by (simp add: add_fit_def Let_def)
    ultimately show ?thesis using evict by simp
  next
    case fit
    then have "add_fit s p = (Inr (), s)" using og c by (simp add: add_fit_def)
    with wf inv og le fit show ?thesis by simp
  qed
qed

lemma store_window_inv:
  assumes wf: "well_formed s" and inv: "window_inv s" and og: "origin s = Some og"
    and le: "og \<le> sequence_number p" and lt: "sequence_number p < og + capacity s"
  shows "window_inv (s\<lparr>buf_packets := (buf_packets s)[nat (sequence_number p mod capacity s) := Some p]\<rparr>)"
  unfolding window_inv_def
proof (intro allI impI)
  let ?c = "capacity s"
  let ?pos = "nat (sequence_number p mod ?c)"
  let ?s' = "s\<lparr>buf_packets := (buf_packets s)[?pos := Some p]\<rparr>"
  fix i q assume i: "i < length (buf_packets ?s')" and q: "buf_packets ?s' ! i = Some q"
  from wf have c: "0 < ?c" by (simp add: well_formed_def)
  show "\<exists>og'. origin ?s' = Some og' \<and> og' \<le> sequence_number q \<and>
          sequence_number q < og' + capacity ?s' \<and> int i = sequence_number q mod capacity ?s'"
  proof (cases "i = ?pos")
    case True
    with i q have "q = p" by simp
    with True og le lt c show ?thesis by simp
  next
    case False
    with i q have "i < length (buf_packets s)" "buf_packets s ! i = Some q" by simp_all
    with inv og show ?thesis unfolding window_inv_def by fastforce
  qed
qed

lemma add_wf:
  assumes wf: "well_formed s" and inv: "window_inv s" and run: "add s p = (r, s')"
  shows "(\<exists>x. r = Inr x) \<and> well_formed s' \<and> window_inv s' \<and>
         capacity s' = capacity s \<and> prefetch s' = prefetch s"
proof -
  from add_origin_wf [OF wf inv, of p] show ?thesis
  proof (elim disjE conjE exE)
    assume "add_origin s p = (Inr False, s)"
    with run have "r = Inr None" "s' = s" by (simp_all add: add_def)
    with wf inv show ?thesis by simp
  next
    fix s1 og1
    assume ao: "add_origin s p = (Inr True, s1)" and wf1: "well_formed s1" and inv1: "window_inv s1"
      and og1: "origin s1 = Some og1" and le1: "og1 \<le> sequence_number p"
      and cp1: "capacity s1 = capacity s" "prefetch s1 = prefetch s"
    from add_fit_wf [OF wf1 inv1 og1 le1] obtain s2 og2 where
      af: "add_fit s1 p = (Inr (), s2)" and wf2: "well_formed s2" and inv2: "window_inv s2"
      and og2: "origin s2 = Some og2" and le2: "og2 \<le> sequence_number p"
      and lt2: "sequence_number p < og2 + capacity s2"
      and cp2: "capacity s2 = capacity s1" "prefetch s2 = prefetch s1"
      by blast
    let ?c = "capacity s2"
    let ?s3 = "s2\<lparr>buf_packets := (buf_packets s2)[nat (sequence_number p mod ?c) := Some p]\<rparr>"
    from wf2 have c: "0 < ?c" and len: "length (buf_packets s2) = nat ?c"
      by (simp_all add: well_formed_def)
    have wf3: "well_formed ?s3" using wf2 by (simp add: well_formed_def)
    have inv3: "window_inv ?s3" by (rule store_window_inv [OF wf2 inv2 og2 le2 lt2])
    have og3: "origin ?s3 = Some og2" using og2 by simp
    have run3: "add s p = remove_frame ?s3 (sequence_number p)"
      using ao af c len by (simp add: add_def py_mod_pos slot_setitem)
    from remove_frame_wf [OF wf3 inv3 og3, of "sequence_number p"] obtain x s4 where
      rf: "remove_frame ?s3 (sequence_number p) = (Inr x, s4)"
      and res: "case x of None \<Rightarrow> s4 = ?s3
        | Some f \<Rightarrow> remove ?s3 (int (length (packets f))) = (Inr (), s4) \<and>
                    frame_ok (capacity ?s3) og2 f \<and> frame_run ?s3 og2 f"
      by blast
    from run run3 rf have r: "r = Inr x" and s': "s' = s4" by simp_all
    show ?thesis
    proof (cases x)
      case None
      with res have "s4 = ?s3" by simp
      with r s' wf3 inv3 cp1 cp2 show ?thesis by simp
    next
      case (Some f)
      with res have rm: "remove ?s3 (int (length (packets f))) = (Inr (), s4)"
        and fok: "frame_ok (capacity ?s3) og2 f" by simp_all
      from fok have "int (length (packets f)) \<le> capacity ?s3" by (simp add: frame_ok_def)
      from remove_window_inv [OF wf3 inv3 og3 this rm] r s' cp1 cp2 show ?thesis by simp
    qed
  qed
qed

subsection \<open>The invariant of reachable buffers\<close>

lemma remove_frame_struct:
  "remove_frame s sn = (r, s') \<Longrightarrow>
     capacity s' = capacity s \<and> prefetch s' = prefetch s \<and>
     length (buf_packets s') = length (buf_packets s)"
  unfolding remove_frame_def by (rule remove_frame_loop_struct)

lemma add_origin_struct:
  "add_origin s p = (r, s') \<Longrightarrow>
     capacity s' = capacity s \<and> prefetch s' = prefetch s \<and>
     length (buf_packets s') = length (buf_packets s)"
  by (auto simp: add_origin_def split: option.splits if_splits prod.splits sum.splits
        dest: remove_struct)

lemma add_fit_struct:
  "add_fit s p = (r, s') \<Longrightarrow>
     capacity s' = capacity s \<and> prefetch s' = prefetch s \<and>
     length (buf_packets s') = length (buf_packets s)"
  by (auto simp: add_fit_def Let_def split: option.splits if_splits prod.splits sum.splits
        dest: remove_struct)

lemma add_struct:
  assumes "add s p = (r, s')"
  shows "capacity s' = capacity s \<and> prefetch s' = prefetch s \<and>
     length (buf_packets s') = length (buf_packets s)"
proof -
  obtain r1 s1 where ao: "add_origin s p = (r1, s1)" by (cases "add_origin s p")
  obtain r2 s2 where af: "add_fit s1 p = (r2, s2)" by (cases "add_fit s1 p")
  note st1 = add_origin_struct [OF ao] and st2 = add_fit_struct [OF af]
  from assms ao af show ?thesis
    using st1 st2
    by (auto simp: add_def split: sum.splits bool.splits
          dest!: remove_frame_struct py_setitem_length)
qed

lemma window_inv_nil: "buf_packets s = [] \<Longrightarrow> window_inv s"
  by (simp add: window_inv_def)

lemma buffer_inv_cases:
  "buffer_inv s \<longleftrightarrow> (capacity s = 0 \<and> buf_packets s = []) \<or> (well_formed s \<and> window_inv s)"
  by (auto simp: buffer_inv_def well_formed_def window_inv_nil)

lemma init_inv:
  assumes "init cap pf = Inr s"
  shows "buffer_inv s"
proof -
  from assms have z: "and cap (cap - 1) = 0"
    and s: "s = \<lparr>capacity = cap, origin = None,
                buf_packets = map (\<lambda>i. None) (py_range cap), prefetch = pf\<rparr>"
    by (simp_all add: init_def split: if_splits)
  have "0 \<le> cap"
  proof (rule ccontr)
    assume "\<not> 0 \<le> cap"
    then have "cap < 0 \<and> cap - 1 < 0" by simp
    then have "and cap (cap - 1) < 0" by (simp only: and_negative_int_iff)
    with z show False by simp
  qed
  then show ?thesis using s by (simp add: buffer_inv_def window_inv_def)
qed

lemma add_inv:
  assumes "buffer_inv s" "add s p = (r, s')"
  shows "buffer_inv s'"
proof -
  from assms(1) consider (zero) "capacity s = 0" "buf_packets s = []" | (pos) "well_formed s" "window_inv s"
    unfolding buffer_inv_cases by blast
  then show ?thesis
  proof cases
    case zero
    with add_struct [OF assms(2)] show ?thesis by (simp add: buffer_inv_cases)
  next
    case pos
    from add_wf [OF pos assms(2)] show ?thesis by (simp add: buffer_inv_cases)
  qed
qed

lemma remove_no_origin:
  assumes "origin s = None"
  shows "remove s n = (if n \<le> capacity s then (if n \<le> 0 then Inr () else Inl TypeError)
                       else Inl AssertionError, s)"
proof (cases "n \<le> 0")
  case True
  then show ?thesis by (simp add: remove_def py_range_def)
next
  case False
  then have "0 < nat n" by simp
  then have "py_range n = 0 # map int [Suc 0..<nat n]"
    by (simp add: py_range_def upt_conv_Cons)
  with assms False show ?thesis by (simp add: remove_def)
qed

lemma remove_inv:
  assumes "buffer_inv s" "remove s n = (r, s')"
  shows "buffer_inv s'"
proof -
  from assms(1) consider (zero) "capacity s = 0" "buf_packets s = []" | (pos) "well_formed s" "window_inv s"
    unfolding buffer_inv_cases by blast
  then show ?thesis
  proof cases
    case zero
    with remove_struct [OF assms(2)] show ?thesis by (simp add: buffer_inv_cases)
  next
    case pos
    show ?thesis
    proof (cases "origin s")
      case None
      with assms(2) have "s' = s" by (simp add: remove_no_origin)
      with assms(1) show ?thesis by simp
    next
      case (Some og)
      show ?thesis
      proof (cases "n \<le> capacity s")
        case True
        from remove_window_inv [OF pos Some True assms(2)] show ?thesis
          by (simp add: buffer_inv_cases)
      next
        case False
        with assms(2) have "s' = s" by (simp add: remove_def)
        with assms(1) show ?thesis by simp
      qed
    qed
  qed
qed

lemma reachable_inv: "reachable s \<Longrightarrow> buffer_inv s"
  by (induction rule: reachable.induct) (auto intro: init_inv add_inv remove_inv)

lemma init_Inr:
  "init c pf = Inr s \<longleftrightarrow>
     and c (c - 1) = 0 \<and>
     s = \<lparr>capacity = c, origin = None, buf_packets = replicate (nat c) None, prefetch = pf\<rparr>"
  by (auto simp: init_def map_replicate_const)

subsection \<open>The window after \<^verbatim>\<open>remove\<close> and \<^verbatim>\<open>add\<close>\<close>

lemma cleared_window:
  assumes c: "0 < c" and t: "og \<le> t" "t < og + c" and n: "int n \<le> c"
  shows "cleared c og n (nat (t mod c)) \<longleftrightarrow> t < og + int n"
proof
  assume "cleared c og n (nat (t mod c))"
  then obtain j where j: "j < n" and eq: "int (nat (t mod c)) = (og + int j) mod c"
    unfolding cleared_def by blast
  from eq c have "t mod c = (og + int j) mod c" by simp
  then have "(t - og) mod c = (og + int j - og) mod c" by (rule mod_diff_cong) simp
  moreover have "(t - og) mod c = t - og" using t by simp
  moreover have "(og + int j - og) mod c = int j" using j n by simp
  ultimately have "t - og = int j" by simp
  with j show "t < og + int n" by simp
next
  assume lt: "t < og + int n"
  let ?j = "nat (t - og)"
  have "?j < n" using lt t by linarith
  moreover have "int (nat (t mod c)) = (og + int ?j) mod c" using t c by simp
  ultimately show "cleared c og n (nat (t mod c))" unfolding cleared_def by blast
qed

lemma remove_slots:
  assumes wf: "well_formed s" and og: "origin s = Some og" and n: "n \<le> capacity s"
    and run: "remove s n = (r, s')"
  shows "r = Inr () \<and> origin s' = Some (og + int (nat n)) \<and>
         (\<forall>t. og \<le> t \<and> t < og + capacity s \<longrightarrow>
            slot s' t = (if t < og + int (nat n) then None else slot s t))"
proof -
  let ?c = "capacity s"
  from wf have c: "0 < ?c" and len: "length (buf_packets s) = nat ?c"
    by (simp_all add: well_formed_def)
  from remove_wf [OF wf og n] run obtain ps where
    s': "s' = s\<lparr>buf_packets := ps, origin := Some (og + int (nat n))\<rparr>" and r: "r = Inr ()"
    and lps: "length ps = length (buf_packets s)"
    and c1: "\<forall>i<length ps. cleared ?c og (nat n) i \<longrightarrow> ps ! i = None"
    and c2: "\<forall>i<length ps. \<not> cleared ?c og (nat n) i \<longrightarrow> ps ! i = buf_packets s ! i"
    by auto
  have "slot s' t = (if t < og + int (nat n) then None else slot s t)"
    if t: "og \<le> t" "t < og + ?c" for t
  proof -
    let ?i = "nat (t mod ?c)"
    have i: "?i < length ps" using c len lps by simp
    have cl: "cleared ?c og (nat n) ?i \<longleftrightarrow> t < og + int (nat n)"
      using cleared_window [OF c t, of "nat n"] n c by simp
    show ?thesis
    proof (cases "t < og + int (nat n)")
      case True
      with cl c1 i have "ps ! ?i = None" by blast
      with True s' show ?thesis by (simp add: slot_def)
    next
      case False
      with cl c2 i have "ps ! ?i = buf_packets s ! ?i" by blast
      with False s' show ?thesis by (simp add: slot_def)
    qed
  qed
  with r s' show ?thesis by simp
qed

lemma add_decompose:
  assumes wf: "well_formed s" and inv: "window_inv s"
  obtains (dropped) og where "origin s = Some og" "og - MAX_MISORDER < sequence_number p"
      "sequence_number p < og" "add s p = (Inr None, s)"
  | (stored) s1 s2 og1 og2 x s4 where
      "add_origin s p = (Inr True, s1)" "well_formed s1" "window_inv s1" "origin s1 = Some og1"
      "og1 \<le> sequence_number p"
      "add_fit s1 p = (Inr (), s2)" "well_formed s2" "window_inv s2" "origin s2 = Some og2"
      "og2 \<le> sequence_number p" "sequence_number p < og2 + capacity s"
      "capacity s1 = capacity s" "capacity s2 = capacity s"
      "add s p = (Inr x, s4)"
      "x = None \<Longrightarrow>
         s4 = s2\<lparr>buf_packets := (buf_packets s2)[nat (sequence_number p mod capacity s) := Some p]\<rparr>"
      "\<And>f. x = Some f \<Longrightarrow> frame_ok (capacity s) og2 f \<and>
         origin s4 = Some (og2 + int (length (packets f)))"
      "well_formed s4" "window_inv s4" "capacity s4 = capacity s" "prefetch s4 = prefetch s"
proof -
  from add_origin_wf [OF wf inv, of p] show ?thesis
  proof (elim disjE conjE exE)
    fix og
    assume d: "add_origin s p = (Inr False, s)" and o: "origin s = Some og"
      and lo: "og - MAX_MISORDER < sequence_number p" and hi: "sequence_number p < og"
    from d have "add s p = (Inr None, s)" by (simp add: add_def)
    with o lo hi show ?thesis by (rule dropped)
  next
    fix s1 og1
    assume ao: "add_origin s p = (Inr True, s1)" and wf1: "well_formed s1" and inv1: "window_inv s1"
      and og1: "origin s1 = Some og1" and le1: "og1 \<le> sequence_number p"
      and cp1: "capacity s1 = capacity s" "prefetch s1 = prefetch s"
    from add_fit_wf [OF wf1 inv1 og1 le1] obtain s2 og2 where
      af: "add_fit s1 p = (Inr (), s2)" and wf2: "well_formed s2" and inv2: "window_inv s2"
      and og2: "origin s2 = Some og2" and le2: "og2 \<le> sequence_number p"
      and lt2: "sequence_number p < og2 + capacity s2"
      and cp2: "capacity s2 = capacity s1" "prefetch s2 = prefetch s1"
      by blast
    let ?c = "capacity s2"
    let ?s3 = "s2\<lparr>buf_packets := (buf_packets s2)[nat (sequence_number p mod ?c) := Some p]\<rparr>"
    from wf2 have c: "0 < ?c" and len: "length (buf_packets s2) = nat ?c"
      by (simp_all add: well_formed_def)
    have wf3: "well_formed ?s3" using wf2 by (simp add: well_formed_def)
    have inv3: "window_inv ?s3" by (rule store_window_inv [OF wf2 inv2 og2 le2 lt2])
    have og3: "origin ?s3 = Some og2" using og2 by simp
    have run3: "add s p = remove_frame ?s3 (sequence_number p)"
      using ao af c len by (simp add: add_def py_mod_pos slot_setitem)
    from remove_frame_wf [OF wf3 inv3 og3, of "sequence_number p"] obtain x s4 where
      rf: "remove_frame ?s3 (sequence_number p) = (Inr x, s4)"
      and res: "case x of None \<Rightarrow> s4 = ?s3
        | Some f \<Rightarrow> remove ?s3 (int (length (packets f))) = (Inr (), s4) \<and>
                    frame_ok (capacity ?s3) og2 f \<and> frame_run ?s3 og2 f"
      by blast
    from run3 rf have run: "add s p = (Inr x, s4)" by simp
    have none: "s4 = s2\<lparr>buf_packets := (buf_packets s2)[nat (sequence_number p mod capacity s) := Some p]\<rparr>"
      if "x = None"
      using that res cp1 cp2 by simp
    have some: "frame_ok (capacity s) og2 f \<and> origin s4 = Some (og2 + int (length (packets f)))"
      if "x = Some f" for f
    proof -
      from that res have rm: "remove ?s3 (int (length (packets f))) = (Inr (), s4)"
        and fok: "frame_ok (capacity ?s3) og2 f" by simp_all
      from fok have "int (length (packets f)) \<le> capacity ?s3" by (simp add: frame_ok_def)
      from remove_window_inv [OF wf3 inv3 og3 this rm] fok cp1 cp2 show ?thesis by simp
    qed
    from add_wf [OF wf inv run] have fin: "well_formed s4" "window_inv s4" "capacity s4 = capacity s"
      "prefetch s4 = prefetch s" by simp_all
    have lt2': "sequence_number p < og2 + capacity s" using lt2 cp1 cp2 by simp
    have cp2': "capacity s2 = capacity s" using cp1 cp2 by simp
    show ?thesis
      by (rule stored [OF ao wf1 inv1 og1 le1 af wf2 inv2 og2 le2 lt2' cp1(1) cp2' run
            none some fin])
  qed
qed


subsection \<open>Buffers that differ in \<^verbatim>\<open>_prefetch\<close> only\<close>

lemma same_outcome_pair [simp]:
  "same_outcome (r, s) (r', s') \<longleftrightarrow> r = r' \<and> same_window s s'"
  by (simp add: same_outcome_def)

lemma remove_loop_same:
  "same_window s t \<Longrightarrow> same_outcome (remove_loop s is) (remove_loop t is)"
proof (induction "is" arbitrary: s t)
  case Nil
  then show ?case by simp
next
  case (Cons i rest)
  from Cons.prems have eq: "capacity s = capacity t" "origin s = origin t"
    "buf_packets s = buf_packets t" by (simp_all add: same_window_def)
  show ?case
  proof (cases "origin t")
    case None
    with eq Cons.prems show ?thesis by simp
  next
    case (Some og)
    show ?thesis
    proof (cases "py_mod og (capacity t)")
      case (Inl e)
      with eq Some Cons.prems show ?thesis by simp
    next
      case (Inr pos)
      show ?thesis
      proof (cases "py_setitem (buf_packets t) pos None")
        case (Inl e)
        with eq Some Inr Cons.prems show ?thesis by simp
      next
        case ps: (Inr ps)
        have "same_window (s\<lparr>buf_packets := ps, origin := Some (og + 1)\<rparr>)
                (t\<lparr>buf_packets := ps, origin := Some (og + 1)\<rparr>)"
          using eq by (simp add: same_window_def)
        from Cons.IH [OF this] eq Some Inr ps show ?thesis by simp
      qed
    qed
  qed
qed

lemma remove_same:
  "same_window s t \<Longrightarrow> same_outcome (remove s n) (remove t n)"
  using remove_loop_same [of s t "py_range n"]
  by (simp add: remove_def same_window_def)

lemma remove_frame_loop_same:
  assumes sw: "same_window s t" and pf: "prefetch s \<le> 1" "prefetch t \<le> 1"
  shows "0 \<le> l_frames l \<Longrightarrow>
     same_outcome (remove_frame_loop s l counts) (remove_frame_loop t l counts)"
proof (induction counts arbitrary: l)
  case Nil
  with sw show ?case by simp
next
  case (Cons count rest)
  from sw have eq: "capacity s = capacity t" "origin s = origin t"
    "buf_packets s = buf_packets t" by (simp_all add: same_window_def)
  have rm': "same_outcome
     (case remove s n of (Inl e, s') \<Rightarrow> (Inl e, s') | (Inr u, s') \<Rightarrow> (Inr x, s'))
     (case remove t n of (Inl e, s') \<Rightarrow> (Inl e, s') | (Inr u, s') \<Rightarrow> (Inr x, s'))"
    for n and x :: "jitter_frame option"
    using remove_same [OF sw, of n]
    by (cases "remove s n"; cases "remove t n") (auto simp: same_outcome_def split: sum.splits)
  show ?case
    using pf Cons.prems sw
    by (simp add: remove_frame_loop.simps Let_def eq rm' Cons.IH
          split: option.splits sum.splits)
qed

lemma remove_frame_same:
  assumes "same_window s t" "prefetch s \<le> 1" "prefetch t \<le> 1"
  shows "same_outcome (remove_frame s sn) (remove_frame t sn)"
  using remove_frame_loop_same [OF assms] assms(1)
  by (simp add: remove_frame_def same_window_def)

lemma add_origin_same:
  assumes "same_window s t"
  shows "same_outcome (add_origin s p) (add_origin t p)"
proof -
  from assms have eq: "capacity s = capacity t" "origin s = origin t"
    "buf_packets s = buf_packets t" by (simp_all add: same_window_def)
  from remove_same [OF assms, of "capacity t"] show ?thesis
    using assms
    by (auto simp: add_origin_def eq same_outcome_def same_window_def
          split: option.splits prod.splits sum.splits)
qed

lemma add_fit_same:
  assumes "same_window s t"
  shows "same_outcome (add_fit s p) (add_fit t p)"
proof -
  from assms have eq: "capacity s = capacity t" "origin s = origin t"
    "buf_packets s = buf_packets t" by (simp_all add: same_window_def)
  from remove_same [OF assms, of "capacity t"]
    remove_same [OF assms, of "sequence_number p - the (origin t) - capacity t + 1"]
  show ?thesis
    using assms
    by (auto simp: add_fit_def Let_def eq same_outcome_def same_window_def
          split: option.splits prod.splits sum.splits)
qed

lemma add_same:
  assumes sw: "same_window s t" and pf: "prefetch s \<le> 1" "prefetch t \<le> 1"
  shows "same_outcome (add s p) (add t p)"
proof -
  obtain r1 s1 where ao: "add_origin s p = (r1, s1)" by (cases "add_origin s p")
  obtain r1' t1 where ao': "add_origin t p = (r1', t1)" by (cases "add_origin t p")
  from add_origin_same [OF sw, of p] ao ao' have r1: "r1' = r1" and sw1: "same_window s1 t1"
    by simp_all
  obtain r2 s2 where af: "add_fit s1 p = (r2, s2)" by (cases "add_fit s1 p")
  obtain r2' t2 where af': "add_fit t1 p = (r2', t2)" by (cases "add_fit t1 p")
  from add_fit_same [OF sw1, of p] af af' have r2: "r2' = r2" and sw2: "same_window s2 t2"
    by simp_all
  from sw2 have eq: "capacity s2 = capacity t2" "origin s2 = origin t2"
    "buf_packets s2 = buf_packets t2" by (simp_all add: same_window_def)
  from add_origin_struct [OF ao] add_fit_struct [OF af] pf
  have p2: "prefetch s2 \<le> 1" by simp
  from add_origin_struct [OF ao'] add_fit_struct [OF af'] pf
  have p2': "prefetch t2 \<le> 1" by simp
  have rf: "same_outcome (remove_frame (s2\<lparr>buf_packets := ps\<rparr>) sn)
              (remove_frame (t2\<lparr>buf_packets := ps\<rparr>) sn)" for ps sn
    by (rule remove_frame_same) (use eq p2 p2' in \<open>simp_all add: same_window_def\<close>)
  show ?thesis
    using ao ao' af af' r1 r2 sw1 sw2 rf
    by (simp add: add_def eq split: sum.splits bool.splits)
qed

lemma add_all_same:
  "same_window s t \<Longrightarrow> prefetch s \<le> 1 \<Longrightarrow> prefetch t \<le> 1 \<Longrightarrow>
     list_all2 same_outcome (add_all s ps) (add_all t ps)"
proof (induction ps arbitrary: s t)
  case Nil
  then show ?case by simp
next
  case (Cons p ps)
  obtain r s' where a: "add s p = (r, s')" by (cases "add s p")
  obtain r' t' where b: "add t p = (r', t')" by (cases "add t p")
  from add_same [OF Cons.prems, of p] a b have r: "r' = r" and sw: "same_window s' t'"
    by simp_all
  from add_struct [OF a] add_struct [OF b] Cons.prems
  have "prefetch s' \<le> 1" "prefetch t' \<le> 1" by simp_all
  from Cons.IH [OF sw this] a b r sw show ?case by simp
qed

subsection \<open>The capacities the constructor accepts\<close>

lemma and_pred_zero_pow2:
  fixes c :: int
  shows "0 < c \<Longrightarrow> and c (c - 1) = 0 \<Longrightarrow> \<exists>k. c = 2 ^ k"
proof (induction "nat c" arbitrary: c rule: less_induct)
  case less
  have rec: "and c (c - 1) = of_bool (odd c \<and> odd (c - 1)) + 2 * and (c div 2) ((c - 1) div 2)"
    by (rule and_int_rec)
  show ?case
  proof (cases "c = 1")
    case True
    then have "c = 2 ^ 0" by simp
    then show ?thesis by blast
  next
    case False
    with less.prems have c2: "2 \<le> c" by simp
    show ?thesis
    proof (cases "even c")
      case True
      then obtain m where m: "c = 2 * m" by (elim evenE)
      with c2 have mpos: "0 < m" by simp
      have "(c - 1) div 2 = m - 1" using m by simp
      moreover have "c div 2 = m" using m by simp
      ultimately have "and c (c - 1) = 2 * and m (m - 1)" using rec True by simp
      with less.prems have z: "and m (m - 1) = 0" by simp
      have "nat m < nat c" using m mpos by simp
      from less.hyps [OF this mpos z] obtain k where "m = 2 ^ k" by blast
      with m have "c = 2 ^ Suc k" by simp
      then show ?thesis by blast
    next
      case False
      then obtain m where m: "c = 2 * m + 1" by (elim oddE)
      with c2 have mpos: "0 < m" by simp
      have "(c - 1) div 2 = m" "c div 2 = m" using m by simp_all
      then have "and c (c - 1) = 2 * m" using rec False by simp
      with less.prems mpos show ?thesis by simp
    qed
  qed
qed

lemma init_accepts_iff:
  "(\<exists>s. init c pf = Inr s) \<longleftrightarrow> c = 0 \<or> (\<exists>k. c = 2 ^ k)"
proof
  assume "\<exists>s. init c pf = Inr s"
  then obtain s where s: "init c pf = Inr s" by blast
  then have z: "and c (c - 1) = 0" by (simp add: init_Inr)
  from init_inv [OF s] s have "0 \<le> c" by (simp add: buffer_inv_def init_Inr)
  with z and_pred_zero_pow2 [of c] show "c = 0 \<or> (\<exists>k. c = 2 ^ k)" by (cases "c = 0") auto
next
  assume "c = 0 \<or> (\<exists>k. c = 2 ^ k)"
  then show "\<exists>s. init c pf = Inr s" by (auto simp: init_Inr pow2_and_pred)
qed

subsection \<open>Restarts of the stream, and gaps in the window\<close>

lemma stall_loop:
  assumes wf: "well_formed s" and og: "origin s = Some og"
    and m: "m \<le> nat (capacity s)"
    and gap: "m < nat (capacity s) \<Longrightarrow> slot s (og + int m) = None"
    and same: "\<forall>j<m. \<forall>q. slot s (og + int j) = Some q \<longrightarrow> timestamp q = ts"
  shows "k \<le> m \<Longrightarrow> l_timestamp l = None \<or> l_timestamp l = Some ts \<Longrightarrow>
     remove_frame_loop s l (map int [k..<nat (capacity s)]) = (Inr None, s)"
proof (induction "m - k" arbitrary: k l)
  case 0
  then have km: "k = m" by simp
  show ?case
  proof (cases "m < nat (capacity s)")
    case True
    then have "map int [k..<nat (capacity s)] = int m # map int [Suc m..<nat (capacity s)]"
      using km by (simp add: upt_conv_Cons)
    with loop_step_empty [OF wf og gap [OF True]] show ?thesis by simp
  next
    case False
    with m km show ?thesis by simp
  qed
next
  case (Suc n)
  let ?c = "capacity s"
  from Suc.hyps(2) have km: "k < m" by simp
  with m have k: "k < nat ?c" by simp
  then have unf: "map int [k..<nat ?c] = int k # map int [Suc k..<nat ?c]"
    by (simp add: upt_conv_Cons)
  have n: "n = m - Suc k" using Suc.hyps(2) by simp
  have k': "Suc k \<le> m" using km by simp
  note IH = Suc.hyps(1) [OF n k']
  show ?case
  proof (cases "slot s (og + int k)")
    case None
    show ?thesis unfolding unf loop_step_empty [OF wf og None] by simp
  next
    case (Some q)
    with same km have tq: "timestamp q = ts" by blast
    show ?thesis
    proof (cases "l_timestamp l")
      case None
      show ?thesis
        unfolding unf loop_step_first [OF wf og Some None]
        by (rule IH) (simp add: tq)
    next
      case (Some t)
      with Suc.prems(2) have t: "l_timestamp l = Some (timestamp q)" by (simp add: tq)
      show ?thesis
        unfolding unf loop_step_same [OF wf og \<open>slot s (og + int k) = Some q\<close> t]
        by (rule IH) (use Suc.prems(2) in simp)
    qed
  qed
qed

lemma remove_frame_stall:
  assumes wf: "well_formed s" and og: "origin s = Some og"
    and m: "m \<le> nat (capacity s)"
    and gap: "m < nat (capacity s) \<Longrightarrow> slot s (og + int m) = None"
    and same: "\<forall>j<m. \<forall>q. slot s (og + int j) = Some q \<longrightarrow> timestamp q = ts"
  shows "remove_frame s sn = (Inr None, s)"
  using stall_loop [OF assms, of 0] by (simp add: remove_frame_def py_range_def)

lemma window_distinct:
  fixes c :: int
  assumes "a \<le> t" "t < a + c" "a \<le> u" "u < a + c" "t \<noteq> u"
  shows "t mod c \<noteq> u mod c"
proof
  assume "t mod c = u mod c"
  then have "(t - a) mod c = (u - a) mod c" by (rule mod_diff_cong) simp
  moreover have "(t - a) mod c = t - a" "(u - a) mod c = u - a" using assms by simp_all
  ultimately show False using assms(5) by simp
qed

lemma update_origin_buf_packets:
  "s\<lparr>origin := a, buf_packets := b\<rparr> = s\<lparr>buf_packets := b, origin := a\<rparr>"
  by (rule jitter_buffer.equality) simp_all

lemma single_packet_scan:
  assumes c: "0 < capacity s"
  shows "remove_frame
           (s\<lparr>buf_packets := (replicate (nat (capacity s)) None)
                                 [nat (sequence_number p mod capacity s) := Some p],
               origin := Some (sequence_number p)\<rparr>) sn =
         (Inr None,
          s\<lparr>buf_packets := (replicate (nat (capacity s)) None)
                                 [nat (sequence_number p mod capacity s) := Some p],
               origin := Some (sequence_number p)\<rparr>)"
    (is "remove_frame ?t sn = (Inr None, ?t)")
proof -
  let ?c = "capacity s"
  let ?n = "sequence_number p"
  let ?m = "min 1 (nat ?c)"
  have wf: "well_formed ?t" using c by (simp add: well_formed_def)
  have og: "origin ?t = Some ?n" by simp
  have m: "?m \<le> nat (capacity ?t)" using c by simp
  have m1: "?m = 1" using c by simp
  have gap: "slot ?t (?n + int ?m) = None" if "?m < nat (capacity ?t)"
  proof -
    from that have c2: "1 < ?c" by simp
    have "(?n + 1) mod ?c \<noteq> ?n mod ?c"
      by (rule window_distinct [of ?n]) (use c2 in simp_all)
    then have "nat ((?n + 1) mod ?c) \<noteq> nat (?n mod ?c)"
      using c by (simp add: nat_eq_iff)
    then show ?thesis using c m1 by (simp add: slot_def)
  qed
  have same: "\<forall>j<?m. \<forall>q. slot ?t (?n + int j) = Some q \<longrightarrow> timestamp q = timestamp p"
    using c m1 by (simp add: slot_def)
  from remove_frame_stall [OF wf og m gap same] show ?thesis by simp
qed

lemma add_reset:
  assumes wf: "well_formed s" and og: "origin s = Some og"
    and far: "sequence_number p \<le> og - MAX_MISORDER"
  shows "add s p =
     (Inr None,
      s\<lparr>buf_packets := (replicate (nat (capacity s)) None)
                            [nat (sequence_number p mod capacity s) := Some p],
         origin := Some (sequence_number p)\<rparr>)"
proof -
  let ?c = "capacity s"
  let ?s1 = "s\<lparr>buf_packets := replicate (nat ?c) None, origin := Some (sequence_number p)\<rparr>"
  from wf have c: "0 < ?c" by (simp add: well_formed_def)
  have ao: "add_origin s p = (Inr True, ?s1)"
    using og far remove_all [OF wf og] by (simp add: add_origin_def)
  have af: "add_fit ?s1 p = (Inr (), ?s1)"
    using c by (simp add: add_fit_def)
  have "add s p = remove_frame
           (s\<lparr>buf_packets := (replicate (nat ?c) None)[nat (sequence_number p mod ?c) := Some p],
               origin := Some (sequence_number p)\<rparr>) (sequence_number p)"
    using ao af c by (simp add: add_def py_mod_pos slot_setitem update_origin_buf_packets)
  with single_packet_scan [OF c, of p] show ?thesis by simp
qed








lemma add_reset_no_slots:
  assumes "capacity s = 0" "origin s = Some og" "sequence_number p \<le> og - MAX_MISORDER"
  shows "add s p = (Inl ZeroDivisionError, s\<lparr>origin := Some (sequence_number p)\<rparr>)"
  using assms
  by (simp add: add_def add_origin_def add_fit_def remove_def py_range_def py_mod_def)

section \<open>The claims\<close>

lemmas run_simps =
  add_def add_origin_def add_fit_def remove_frame_def remove_def remove_frame_loop.simps
  py_range_def py_mod_def py_setitem_def py_getitem_def py_index_def MAX_MISORDER_def
  upt_conv_Cons

text \<open>
  Claim C7 (basic single-frame assembly), as the code has it. For a fresh buffer with
  \<open>prefetch = 0\<close> whose capacity is at least 4, adding packets with sequence numbers 0, 1, 2
  sharing timestamp 1000 and then packet 3 with timestamp 2000 returns nothing on the first
  three calls of \<^verbatim>\<open>add\<close>; the fourth returns a frame whose data is the concatenation of the
  payloads of packets 0, 1, 2 in that order, whose timestamp is 1000, and whose
  \<^verbatim>\<open>ntp_timestamp\<close> and \<^verbatim>\<open>rtp_diff\<close> are those of packet 0. A capacity below 4 does not
  hold the four packets: see the counterexample below.
\<close>

theorem basic_assembly:
  assumes i: "init c 0 = Inr s0" and c: "4 \<le> c"
    and sn: "sequence_number p0 = 0" "sequence_number p1 = 1" "sequence_number p2 = 2"
      "sequence_number p3 = 3"
    and ts: "timestamp p0 = 1000" "timestamp p1 = 1000" "timestamp p2 = 1000"
      "timestamp p3 = 2000"
  shows "map fst (add_all s0 [p0, p1, p2, p3]) =
     [Inr None, Inr None, Inr None,
      Inr (Some \<lparr>data = payload p0 @ payload p1 @ payload p2, packets = [p0, p1, p2],
                 frame_timestamp = 1000, frame_ntp_timestamp = Some (ntp_timestamp p0),
                 frame_rtp_diff = rtp_diff p0\<rparr>)]"
proof -
  let ?e = "replicate (nat c) None :: rtp_packet option list"
  let ?s1 = "\<lparr>capacity = c, origin = Some 0, buf_packets = ?e[0 := Some p0], prefetch = 0\<rparr>"
  let ?s2 = "\<lparr>capacity = c, origin = Some 0,
              buf_packets = ?e[0 := Some p0, Suc 0 := Some p1], prefetch = 0\<rparr>"
  let ?s3 = "\<lparr>capacity = c, origin = Some 0,
              buf_packets = ?e[0 := Some p0, Suc 0 := Some p1, 2 := Some p2], prefetch = 0\<rparr>"
  from i have s0: "s0 = \<lparr>capacity = c, origin = None, buf_packets = ?e, prefetch = 0\<rparr>"
    by (simp add: init_Inr)
  have a1: "add s0 p0 = (Inr None, ?s1)"
    unfolding s0 using c sn ts by (simp add: run_simps)
  have a2: "add ?s1 p1 = (Inr None, ?s2)"
    using c sn ts by (simp add: run_simps)
  have a3: "add ?s2 p2 = (Inr None, ?s3)"
    using c sn ts by (simp add: run_simps)
  have a4: "fst (add ?s3 p3) =
     Inr (Some \<lparr>data = payload p0 @ payload p1 @ payload p2, packets = [p0, p1, p2],
                 frame_timestamp = 1000, frame_ntp_timestamp = Some (ntp_timestamp p0),
                 frame_rtp_diff = rtp_diff p0\<rparr>)"
    using c sn ts by (simp add: run_simps)
  show ?thesis using a1 a2 a3 a4 by (simp split: prod.splits)
qed

text \<open>
  The statement at capacity 4, with concrete payloads.
\<close>

theorem basic_assembly_witness:
  "init 4 0 = Inr \<lparr>capacity = 4, origin = None, buf_packets = [None, None, None, None],
                   prefetch = 0\<rparr> \<and>
   map fst (add_all \<lparr>capacity = 4, origin = None, buf_packets = [None, None, None, None],
                     prefetch = 0\<rparr>
     [test_packet 0 1000 ''a'', test_packet 1 1000 ''b'', test_packet 2 1000 ''c'',
      test_packet 3 2000 ''d'']) =
     [Inr None, Inr None, Inr None,
      Inr (Some \<lparr>data = ''abc'',
                 packets = [test_packet 0 1000 ''a'', test_packet 1 1000 ''b'',
                            test_packet 2 1000 ''c''],
                 frame_timestamp = 1000, frame_ntp_timestamp = Some 0, frame_rtp_diff = 0\<rparr>)]"
proof -
  have i: "init 4 0 = Inr \<lparr>capacity = 4, origin = None,
                   buf_packets = [None, None, None, None], prefetch = 0\<rparr>"
    by (simp add: init_def py_range_def upt_conv_Cons)
  from basic_assembly [OF i, of "test_packet 0 1000 ''a''" "test_packet 1 1000 ''b''"
      "test_packet 2 1000 ''c''" "test_packet 3 2000 ''d''"] i
  show ?thesis by (simp add: test_packet_def)
qed

text \<open>
  With capacity 2 (a power of two, accepted by the constructor) packets 0 and 1 are evicted
  to make room for packets 2 and 3 (lines 54-57), and the frame returned by the fourth call
  holds the payload of packet 2 only.
\<close>

theorem basic_assembly_small_capacity_counterexample:
  "init 2 0 = Inr \<lparr>capacity = 2, origin = None, buf_packets = [None, None], prefetch = 0\<rparr> \<and>
   map fst (add_all \<lparr>capacity = 2, origin = None, buf_packets = [None, None], prefetch = 0\<rparr>
     [test_packet 0 1000 ''a'', test_packet 1 1000 ''b'', test_packet 2 1000 ''c'',
      test_packet 3 2000 ''d'']) =
     [Inr None, Inr None, Inr None,
      Inr (Some \<lparr>data = ''c'', packets = [test_packet 2 1000 ''c''],
                 frame_timestamp = 1000, frame_ntp_timestamp = Some 0, frame_rtp_diff = 0\<rparr>)] \<and>
   ''c'' \<noteq> ''a'' @ ''b'' @ ''c''"
  by (simp add: init_def run_simps test_packet_def)

text \<open>
  Claim C1 (reordering tolerance), as the code has it. The first packet to arrive fixes the
  origin (line 41), and a packet less than \<open>MAX_MISORDER\<close> behind the origin is dropped
  (lines 45-46). So in arrival order 1, 0, 2, 3 packet 0 is dropped and the fourth call returns
  the frame of packets 1 and 2 (timestamp 1000, \<^verbatim>\<open>ntp_timestamp\<close> and \<^verbatim>\<open>rtp_diff\<close> of packet
  1). Reordering behind the first arrival is tolerated: arrival order 0, 2, 1, 3 gives on every
  call the result of the in-order arrival, the fourth being the frame of packets 0, 1, 2.
  The capacity is at least 4 and \<open>prefetch = 0\<close>.
\<close>

theorem reordering_drops_packet_before_origin:
  assumes i: "init c 0 = Inr s0" and c: "4 \<le> c"
    and sn: "sequence_number p0 = 0" "sequence_number p1 = 1" "sequence_number p2 = 2"
      "sequence_number p3 = 3"
    and ts: "timestamp p0 = 1000" "timestamp p1 = 1000" "timestamp p2 = 1000"
      "timestamp p3 = 2000"
  shows "map fst (add_all s0 [p1, p0, p2, p3]) =
     [Inr None, Inr None, Inr None,
      Inr (Some \<lparr>data = payload p1 @ payload p2, packets = [p1, p2],
                 frame_timestamp = 1000, frame_ntp_timestamp = Some (ntp_timestamp p1),
                 frame_rtp_diff = rtp_diff p1\<rparr>)] \<and>
     map fst (add_all s0 [p0, p2, p1, p3]) = map fst (add_all s0 [p0, p1, p2, p3]) \<and>
     map fst (add_all s0 [p0, p2, p1, p3]) =
     [Inr None, Inr None, Inr None,
      Inr (Some \<lparr>data = payload p0 @ payload p1 @ payload p2, packets = [p0, p1, p2],
                 frame_timestamp = 1000, frame_ntp_timestamp = Some (ntp_timestamp p0),
                 frame_rtp_diff = rtp_diff p0\<rparr>)]"
proof -
  let ?e = "replicate (nat c) None :: rtp_packet option list"
  from i have s0: "s0 = \<lparr>capacity = c, origin = None, buf_packets = ?e, prefetch = 0\<rparr>"
    by (simp add: init_Inr)
  let ?t1 = "\<lparr>capacity = c, origin = Some 1, buf_packets = ?e[Suc 0 := Some p1], prefetch = 0\<rparr>"
  let ?t3 = "\<lparr>capacity = c, origin = Some 1,
              buf_packets = ?e[Suc 0 := Some p1, 2 := Some p2], prefetch = 0\<rparr>"
  have b1: "add s0 p1 = (Inr None, ?t1)"
    unfolding s0 using c sn ts by (simp add: run_simps)
  have b2: "add ?t1 p0 = (Inr None, ?t1)"
    using c sn ts by (simp add: run_simps)
  have b3: "add ?t1 p2 = (Inr None, ?t3)"
    using c sn ts by (simp add: run_simps)
  have b4: "fst (add ?t3 p3) =
     Inr (Some \<lparr>data = payload p1 @ payload p2, packets = [p1, p2],
                 frame_timestamp = 1000, frame_ntp_timestamp = Some (ntp_timestamp p1),
                 frame_rtp_diff = rtp_diff p1\<rparr>)"
    using c sn ts by (simp add: run_simps)
  let ?s1 = "\<lparr>capacity = c, origin = Some 0, buf_packets = ?e[0 := Some p0], prefetch = 0\<rparr>"
  let ?s2 = "\<lparr>capacity = c, origin = Some 0,
              buf_packets = ?e[0 := Some p0, Suc 0 := Some p1], prefetch = 0\<rparr>"
  let ?s3 = "\<lparr>capacity = c, origin = Some 0,
              buf_packets = ?e[0 := Some p0, Suc 0 := Some p1, 2 := Some p2], prefetch = 0\<rparr>"
  let ?u2 = "\<lparr>capacity = c, origin = Some 0,
              buf_packets = ?e[0 := Some p0, 2 := Some p2], prefetch = 0\<rparr>"
  have a1: "add s0 p0 = (Inr None, ?s1)"
    unfolding s0 using c sn ts by (simp add: run_simps)
  have a2: "add ?s1 p1 = (Inr None, ?s2)"
    using c sn ts by (simp add: run_simps)
  have a3: "add ?s2 p2 = (Inr None, ?s3)"
    using c sn ts by (simp add: run_simps)
  have u2: "add ?s1 p2 = (Inr None, ?u2)"
    using c sn ts by (simp add: run_simps)
  have u3: "add ?u2 p1 = (Inr None, ?s3)"
    using c sn ts by (simp add: run_simps list_update_swap)
  have a4: "fst (add ?s3 p3) =
     Inr (Some \<lparr>data = payload p0 @ payload p1 @ payload p2, packets = [p0, p1, p2],
                 frame_timestamp = 1000, frame_ntp_timestamp = Some (ntp_timestamp p0),
                 frame_rtp_diff = rtp_diff p0\<rparr>)"
    using c sn ts by (simp add: run_simps)
  show ?thesis using a1 a2 a3 a4 u2 u3 b1 b2 b3 b4 by (simp split: prod.splits)
qed

text \<open>
  The statement at capacity 4, with concrete payloads.
\<close>

theorem reordering_drops_packet_before_origin_witness:
  "init 4 0 = Inr \<lparr>capacity = 4, origin = None, buf_packets = [None, None, None, None],
                   prefetch = 0\<rparr> \<and>
   map fst (add_all \<lparr>capacity = 4, origin = None, buf_packets = [None, None, None, None],
                     prefetch = 0\<rparr>
     [test_packet 1 1000 ''b'', test_packet 0 1000 ''a'', test_packet 2 1000 ''c'',
      test_packet 3 2000 ''d'']) =
     [Inr None, Inr None, Inr None,
      Inr (Some \<lparr>data = ''bc'',
                 packets = [test_packet 1 1000 ''b'', test_packet 2 1000 ''c''],
                 frame_timestamp = 1000, frame_ntp_timestamp = Some 0, frame_rtp_diff = 0\<rparr>)] \<and>
   map fst (add_all \<lparr>capacity = 4, origin = None, buf_packets = [None, None, None, None],
                     prefetch = 0\<rparr>
     [test_packet 0 1000 ''a'', test_packet 2 1000 ''c'', test_packet 1 1000 ''b'',
      test_packet 3 2000 ''d'']) =
   map fst (add_all \<lparr>capacity = 4, origin = None, buf_packets = [None, None, None, None],
                     prefetch = 0\<rparr>
     [test_packet 0 1000 ''a'', test_packet 1 1000 ''b'', test_packet 2 1000 ''c'',
      test_packet 3 2000 ''d'']) \<and>
   map fst (add_all \<lparr>capacity = 4, origin = None, buf_packets = [None, None, None, None],
                     prefetch = 0\<rparr>
     [test_packet 0 1000 ''a'', test_packet 2 1000 ''c'', test_packet 1 1000 ''b'',
      test_packet 3 2000 ''d'']) =
     [Inr None, Inr None, Inr None,
      Inr (Some \<lparr>data = ''abc'',
                 packets = [test_packet 0 1000 ''a'', test_packet 1 1000 ''b'',
                            test_packet 2 1000 ''c''],
                 frame_timestamp = 1000, frame_ntp_timestamp = Some 0, frame_rtp_diff = 0\<rparr>)]"
proof -
  have i: "init 4 0 = Inr \<lparr>capacity = 4, origin = None,
                   buf_packets = [None, None, None, None], prefetch = 0\<rparr>"
    by (simp add: init_def py_range_def upt_conv_Cons)
  have p: "payload (test_packet sn ts d) = d" "sequence_number (test_packet sn ts d) = sn"
    "timestamp (test_packet sn ts d) = ts" "ntp_timestamp (test_packet sn ts d) = 0"
    "rtp_diff (test_packet sn ts d) = 0" for sn ts d
    by (simp_all add: test_packet_def)
  from reordering_drops_packet_before_origin [OF i, of "test_packet 0 1000 ''a''"
      "test_packet 1 1000 ''b''" "test_packet 2 1000 ''c''" "test_packet 3 2000 ''d''"] i
  show ?thesis by (auto simp add: p simp del: add_all.simps)
qed

text \<open>
  Arrival order 1, 0, 2, 3 against the in-order arrival at capacity 4: the frames differ,
  the payload of packet 0 is missing from the first.
\<close>

theorem reordering_counterexample:
  "init 4 0 = Inr \<lparr>capacity = 4, origin = None, buf_packets = [None, None, None, None],
                   prefetch = 0\<rparr> \<and>
   map fst (add_all \<lparr>capacity = 4, origin = None, buf_packets = [None, None, None, None],
                     prefetch = 0\<rparr>
     [test_packet 1 1000 ''b'', test_packet 0 1000 ''a'', test_packet 2 1000 ''c'',
      test_packet 3 2000 ''d'']) =
     [Inr None, Inr None, Inr None,
      Inr (Some \<lparr>data = ''bc'',
                 packets = [test_packet 1 1000 ''b'', test_packet 2 1000 ''c''],
                 frame_timestamp = 1000, frame_ntp_timestamp = Some 0, frame_rtp_diff = 0\<rparr>)] \<and>
   map fst (add_all \<lparr>capacity = 4, origin = None, buf_packets = [None, None, None, None],
                     prefetch = 0\<rparr>
     [test_packet 0 1000 ''a'', test_packet 1 1000 ''b'', test_packet 2 1000 ''c'',
      test_packet 3 2000 ''d'']) =
     [Inr None, Inr None, Inr None,
      Inr (Some \<lparr>data = ''abc'',
                 packets = [test_packet 0 1000 ''a'', test_packet 1 1000 ''b'',
                            test_packet 2 1000 ''c''],
                 frame_timestamp = 1000, frame_ntp_timestamp = Some 0, frame_rtp_diff = 0\<rparr>)] \<and>
   ''bc'' \<noteq> ''abc''"
  by (simp add: init_def run_simps test_packet_def)


lemma test_packet_sel [simp]:
  "payload (test_packet sn ts d) = d" "sequence_number (test_packet sn ts d) = sn"
  "timestamp (test_packet sn ts d) = ts" "ntp_timestamp (test_packet sn ts d) = 0"
  "rtp_diff (test_packet sn ts d) = 0"
  by (simp_all add: test_packet_def)

lemma init_4: "init 4 pf = Inr \<lparr>capacity = 4, origin = None,
                   buf_packets = [None, None, None, None], prefetch = pf\<rparr>"
  by (simp add: init_def py_range_def upt_conv_Cons)




lemma reachable_example_restart:
  "reachable \<lparr>capacity = 4, origin = Some 100,
              buf_packets = [Some (test_packet 100 1000 ''x''), None, None, None],
              prefetch = 0\<rparr>"
proof -
  have "add \<lparr>capacity = 4, origin = None, buf_packets = [None, None, None, None],
              prefetch = 0\<rparr> (test_packet 100 1000 ''x'') =
        (Inr None, \<lparr>capacity = 4, origin = Some 100,
              buf_packets = [Some (test_packet 100 1000 ''x''), None, None, None],
              prefetch = 0\<rparr>)"
    by (simp add: run_simps test_packet_def)
  from reachable_add [OF reachable_init [OF init_4] this] show ?thesis .
qed

text \<open>
  Claim C3 (duplicate and late packets), as the code has it. When the origin lies strictly
  between 0 and \<open>MAX_MISORDER = 100\<close>, adding a packet with sequence number 0 returns nothing
  and leaves the buffer as it was, whatever the buffer. When the origin of a reachable buffer
  is \<open>MAX_MISORDER\<close> or more, the same packet is taken for a restart of the stream (lines
  42-44): every slot is cleared, the origin becomes 0, the packet is stored in slot 0 and
  nothing is returned. (The buffer of capacity 0 has no slot: there the call sets the origin
  to 0 and raises \<^verbatim>\<open>ZeroDivisionError\<close> at line 59.)
\<close>

theorem late_packet_dropped:
  "(origin s = Some og \<and> 0 < og \<and> og < MAX_MISORDER \<and> sequence_number p = 0 \<longrightarrow>
      add s p = (Inr None, s)) \<and>
   (reachable s \<and> origin s = Some og \<and> MAX_MISORDER \<le> og \<and> sequence_number p = 0 \<longrightarrow>
      add s p =
        (if capacity s = 0 then (Inl ZeroDivisionError, s\<lparr>origin := Some 0\<rparr>)
         else (Inr None,
               s\<lparr>buf_packets := (replicate (nat (capacity s)) None)[0 := Some p],
                  origin := Some 0\<rparr>)))"
proof (intro conjI impI)
  assume "origin s = Some og \<and> 0 < og \<and> og < MAX_MISORDER \<and> sequence_number p = 0"
  then show "add s p = (Inr None, s)" by (simp add: add_def add_origin_def)
next
  assume a: "reachable s \<and> origin s = Some og \<and> MAX_MISORDER \<le> og \<and> sequence_number p = 0"
  then have og: "origin s = Some og" and far: "sequence_number p \<le> og - MAX_MISORDER"
    and n: "sequence_number p = 0" by simp_all
  from a have "buffer_inv s" by (simp add: reachable_inv)
  then consider (zero) "capacity s = 0" | (pos) "well_formed s"
    unfolding buffer_inv_cases by blast
  then show "add s p =
        (if capacity s = 0 then (Inl ZeroDivisionError, s\<lparr>origin := Some 0\<rparr>)
         else (Inr None,
               s\<lparr>buf_packets := (replicate (nat (capacity s)) None)[0 := Some p],
                  origin := Some 0\<rparr>))"
  proof cases
    case zero
    from add_reset_no_slots [OF zero og far] zero n show ?thesis by simp
  next
    case pos
    then have "0 < capacity s" by (simp add: well_formed_def)
    with add_reset [OF pos og far] n show ?thesis by simp
  qed
qed

text \<open>
  The statement for a buffer with origin 3 and for the buffer that received packet 100 first.
\<close>

theorem late_packet_dropped_witness:
  "origin \<lparr>capacity = 4, origin = Some 3,
           buf_packets = [None, None, None, Some (test_packet 3 1000 ''d'')],
           prefetch = 0\<rparr> = Some 3 \<and> (0::int) < 3 \<and> 3 < MAX_MISORDER \<and>
   sequence_number (test_packet 0 1000 ''a'') = 0 \<and>
   add \<lparr>capacity = 4, origin = Some 3,
         buf_packets = [None, None, None, Some (test_packet 3 1000 ''d'')],
         prefetch = 0\<rparr> (test_packet 0 1000 ''a'') =
     (Inr None, \<lparr>capacity = 4, origin = Some 3,
         buf_packets = [None, None, None, Some (test_packet 3 1000 ''d'')],
         prefetch = 0\<rparr>) \<and>
   reachable \<lparr>capacity = 4, origin = Some 100,
              buf_packets = [Some (test_packet 100 1000 ''x''), None, None, None],
              prefetch = 0\<rparr> \<and>
   MAX_MISORDER \<le> 100 \<and>
   add \<lparr>capacity = 4, origin = Some 100,
         buf_packets = [Some (test_packet 100 1000 ''x''), None, None, None],
         prefetch = 0\<rparr> (test_packet 0 1000 ''a'') =
     (Inr None, \<lparr>capacity = 4, origin = Some 0,
                  buf_packets = [Some (test_packet 0 1000 ''a''), None, None, None],
                  prefetch = 0\<rparr>)"
  using late_packet_dropped [of "\<lparr>capacity = 4, origin = Some 3,
           buf_packets = [None, None, None, Some (test_packet 3 1000 ''d'')],
           prefetch = 0\<rparr>" 3 "test_packet 0 1000 ''a''"]
    late_packet_dropped [of "\<lparr>capacity = 4, origin = Some 100,
              buf_packets = [Some (test_packet 100 1000 ''x''), None, None, None],
              prefetch = 0\<rparr>" 100 "test_packet 0 1000 ''a''"]
    reachable_example_restart
  by (simp add: MAX_MISORDER_def numeral_eq_Suc)

text \<open>
  A buffer that received packet 100 first has origin 100. Adding a packet with sequence
  number 0 to it flushes the window and moves the origin to 0: the buffer has changed.
\<close>

theorem late_packet_reset_counterexample:
  "add \<lparr>capacity = 4, origin = None, buf_packets = [None, None, None, None], prefetch = 0\<rparr>
       (test_packet 100 1000 ''x'') =
     (Inr None, \<lparr>capacity = 4, origin = Some 100,
                  buf_packets = [Some (test_packet 100 1000 ''x''), None, None, None],
                  prefetch = 0\<rparr>) \<and>
   (0::int) < 100 \<and>
   add \<lparr>capacity = 4, origin = Some 100,
         buf_packets = [Some (test_packet 100 1000 ''x''), None, None, None],
         prefetch = 0\<rparr> (test_packet 0 1000 ''a'') =
     (Inr None, \<lparr>capacity = 4, origin = Some 0,
                  buf_packets = [Some (test_packet 0 1000 ''a''), None, None, None],
                  prefetch = 0\<rparr>) \<and>
   \<lparr>capacity = 4, origin = Some 0,
     buf_packets = [Some (test_packet 0 1000 ''a''), None, None, None],
     prefetch = 0\<rparr> \<noteq>
   \<lparr>capacity = 4, origin = Some (100::int),
     buf_packets = [Some (test_packet 100 1000 ''x''), None, None, None],
     prefetch = 0\<rparr>"
  by (simp add: run_simps test_packet_def)

text \<open>
  Claim C4 (capacity validation). The assertion of line 29,
  \<^verbatim>\<open>capacity & (capacity - 1) == 0\<close>, carries the message "capacity must be a power of 2",
  and it holds for 0, which is not a power of two: construction with capacity 0 succeeds and
  gives a buffer with no slot. (Lemma \<open>init_accepts_iff\<close> above shows that 0 is the only
  accepted capacity that is not a power of two.)
\<close>

theorem init_accepts_zero_capacity:
  "(\<forall>k. (0::int) \<noteq> 2 ^ k) \<and>
   init 0 pf = Inr \<lparr>capacity = 0, origin = None, buf_packets = [], prefetch = pf\<rparr>"
  by (simp add: init_def py_range_def)

lemma reachable_add_all:
  "reachable s \<Longrightarrow> x \<in> set (add_all s ps) \<Longrightarrow> reachable (snd x)"
proof (induction ps arbitrary: s)
  case Nil
  then show ?case by simp
next
  case (Cons p ps)
  obtain r s' where a: "add s p = (r, s')" by (cases "add s p")
  from reachable_add [OF Cons.prems(1) a] have r': "reachable s'" .
  from Cons.prems(2) a have "x = (r, s') \<or> x \<in> set (add_all s' ps)" by simp
  then show ?case using r' Cons.IH [OF r'] by auto
qed

lemma reachable_example:
  "reachable \<lparr>capacity = 4, origin = Some 5,
              buf_packets = [None, Some (test_packet 5 1000 ''a''), None, None],
              prefetch = 0\<rparr>"
proof -
  have "add \<lparr>capacity = 4, origin = None, buf_packets = [None, None, None, None],
              prefetch = 0\<rparr> (test_packet 5 1000 ''a'') =
        (Inr None, \<lparr>capacity = 4, origin = Some 5,
              buf_packets = [None, Some (test_packet 5 1000 ''a''), None, None],
              prefetch = 0\<rparr>)"
    by (simp add: run_simps test_packet_def)
  from reachable_add [OF reachable_init [OF init_4] this] show ?thesis .
qed

text \<open>
  Claim C5 (window invariant). In every buffer reachable from a constructed one by calls of
  \<^verbatim>\<open>add\<close> and \<^verbatim>\<open>remove\<close>, a packet stored at index \<open>i\<close> has a sequence number \<open>n\<close> with
  \<open>0 \<le> n - origin < capacity\<close> and \<open>i = n mod capacity\<close>.
\<close>

theorem window_invariant:
  assumes "reachable s" "i < length (buf_packets s)" "buf_packets s ! i = Some q"
  shows "\<exists>og. origin s = Some og \<and> 0 \<le> sequence_number q - og \<and>
              sequence_number q - og < capacity s \<and>
              int i = sequence_number q mod capacity s"
proof -
  from reachable_inv [OF assms(1)] have "window_inv s" by (simp add: buffer_inv_def)
  with assms(2,3) obtain og where "origin s = Some og" "og \<le> sequence_number q"
    "sequence_number q < og + capacity s" "int i = sequence_number q mod capacity s"
    unfolding window_inv_def by blast
  then show ?thesis by simp
qed

text \<open>
  The statement for the buffer that received packet 5 first, at capacity 4.
\<close>

theorem window_invariant_witness:
  "reachable \<lparr>capacity = 4, origin = Some 5,
              buf_packets = [None, Some (test_packet 5 1000 ''a''), None, None],
              prefetch = 0\<rparr> \<and>
   (1::nat) < length [None, Some (test_packet 5 1000 ''a''), None, None] \<and>
   [None, Some (test_packet 5 1000 ''a''), None, None] ! 1 = Some (test_packet 5 1000 ''a'') \<and>
   (0::int) \<le> 5 - 5 \<and> (5::int) - 5 < 4 \<and> int 1 = 5 mod 4"
  using window_invariant [OF reachable_example, of 1 "test_packet 5 1000 ''a''"]
    reachable_example
  by simp

text \<open>
  Claim C10 (\<^verbatim>\<open>remove\<close> needs an origin). On a freshly constructed buffer \<^verbatim>\<open>remove(n)\<close>
  with \<open>n \<ge> 1\<close> raises and leaves the buffer as it was: \<^verbatim>\<open>TypeError\<close> from
  \<^verbatim>\<open>None % capacity\<close> (line 110) when \<open>n \<le> capacity\<close>, \<^verbatim>\<open>AssertionError\<close> (line 108)
  otherwise. On a reachable buffer whose origin is set, \<^verbatim>\<open>remove(m)\<close> with
  \<open>m \<le> capacity\<close> returns without error.
\<close>

theorem remove_requires_origin:
  "(init cap pf = Inr s \<and> 1 \<le> n \<longrightarrow>
      remove s n = (Inl (if n \<le> cap then TypeError else AssertionError), s)) \<and>
   (reachable s' \<and> origin s' = Some og \<and> m \<le> capacity s' \<longrightarrow>
      (\<exists>s''. remove s' m = (Inr (), s'')))"
proof (intro conjI impI)
  assume "init cap pf = Inr s \<and> 1 \<le> n"
  then have "origin s = None" "capacity s = cap" "1 \<le> n" by (auto simp: init_Inr)
  then show "remove s n = (Inl (if n \<le> cap then TypeError else AssertionError), s)"
    by (simp add: remove_no_origin)
next
  assume a: "reachable s' \<and> origin s' = Some og \<and> m \<le> capacity s'"
  then have "buffer_inv s'" by (simp add: reachable_inv)
  then consider (zero) "capacity s' = 0" | (pos) "well_formed s'"
    unfolding buffer_inv_cases by blast
  then show "\<exists>s''. remove s' m = (Inr (), s'')"
  proof cases
    case zero
    with a have "m \<le> 0" by simp
    then have "py_range m = []" by (simp add: py_range_def)
    with a show ?thesis by (simp add: remove_def)
  next
    case pos
    from a have og: "origin s' = Some og" and m: "m \<le> capacity s'" by simp_all
    from remove_wf [OF pos og m] show ?thesis by blast
  qed
qed

text \<open>
  The statement at capacity 4, for the fresh buffer and for the buffer that received
  packet 5.
\<close>

theorem remove_requires_origin_witness:
  "init 4 0 = Inr \<lparr>capacity = 4, origin = None, buf_packets = [None, None, None, None],
                   prefetch = 0\<rparr> \<and> (1::int) \<le> 1 \<and>
   remove \<lparr>capacity = 4, origin = None, buf_packets = [None, None, None, None],
           prefetch = 0\<rparr> 1 =
     (Inl TypeError, \<lparr>capacity = 4, origin = None, buf_packets = [None, None, None, None],
                      prefetch = 0\<rparr>) \<and>
   reachable \<lparr>capacity = 4, origin = Some 5,
              buf_packets = [None, Some (test_packet 5 1000 ''a''), None, None],
              prefetch = 0\<rparr> \<and> (1::int) \<le> 4 \<and>
   (\<exists>s''. remove \<lparr>capacity = 4, origin = Some 5,
              buf_packets = [None, Some (test_packet 5 1000 ''a''), None, None],
              prefetch = 0\<rparr> 1 = (Inr (), s''))"
  using remove_requires_origin [of 4 0 "\<lparr>capacity = 4, origin = None,
      buf_packets = [None, None, None, None], prefetch = 0\<rparr>" 1
      "\<lparr>capacity = 4, origin = Some 5,
              buf_packets = [None, Some (test_packet 5 1000 ''a''), None, None],
              prefetch = 0\<rparr>" 5 1]
    reachable_example init_4 [of 0]
  by simp

text \<open>
  Claim C9 (prefetch 0 and 1 are equivalent). For every power-of-two capacity \<open>2 ^ k\<close> and
  every list of packets, the buffers constructed with \<open>prefetch = 0\<close> and with
  \<open>prefetch = 1\<close> give the same outcome on every call of \<^verbatim>\<open>add\<close> and have the same origin
  and the same slot contents after every call.
\<close>

theorem prefetch_0_1_equivalent:
  "\<exists>a b. init (2 ^ k) 0 = Inr a \<and> init (2 ^ k) 1 = Inr b \<and>
          map (\<lambda>(r, s). (r, origin s, buf_packets s)) (add_all a ps) =
          map (\<lambda>(r, s). (r, origin s, buf_packets s)) (add_all b ps)"
proof -
  let ?a = "\<lparr>capacity = 2 ^ k, origin = None,
             buf_packets = replicate (nat (2 ^ k)) None, prefetch = 0\<rparr>"
  let ?b = "\<lparr>capacity = 2 ^ k, origin = None,
             buf_packets = replicate (nat (2 ^ k)) None, prefetch = 1\<rparr>"
  have i: "init (2 ^ k) 0 = Inr ?a" "init (2 ^ k) 1 = Inr ?b"
    by (simp_all add: init_Inr pow2_and_pred)
  have "list_all2 same_outcome (add_all ?a ps) (add_all ?b ps)"
    by (rule add_all_same) (simp_all add: same_window_def)
  then have "map (\<lambda>(r, s). (r, origin s, buf_packets s)) (add_all ?a ps) =
          map (\<lambda>(r, s). (r, origin s, buf_packets s)) (add_all ?b ps)"
    by (induction rule: list_all2_induct) (auto simp: same_outcome_def same_window_def)
  with i show ?thesis by blast
qed

lemma reachable_example_overflow:
  "reachable \<lparr>capacity = 4, origin = Some 0,
              buf_packets = [Some (test_packet 0 1000 ''a''), None,
                             Some (test_packet 2 1000 ''c''), Some (test_packet 3 1000 ''d'')],
              prefetch = 0\<rparr>"
proof -
  let ?fresh = "\<lparr>capacity = 4, origin = None, buf_packets = [None, None, None, None],
              prefetch = 0\<rparr>"
  let ?s = "\<lparr>capacity = 4, origin = Some 0,
              buf_packets = [Some (test_packet 0 1000 ''a''), None,
                             Some (test_packet 2 1000 ''c''), Some (test_packet 3 1000 ''d'')],
              prefetch = 0\<rparr>"
  have "(Inr None, ?s) \<in> set (add_all ?fresh
      [test_packet 0 1000 ''a'', test_packet 2 1000 ''c'', test_packet 3 1000 ''d''])"
    by (simp add: run_simps test_packet_def)
  from reachable_add_all [OF reachable_init [OF init_4] this] show ?thesis by simp
qed

text \<open>
  Claim C6 (bounded eviction on overflow), as the code has it. On a reachable buffer with
  capacity \<open>C\<close> and origin \<open>og\<close>, adding a packet with
  \<open>delta = sequence_number - og\<close> in \<open>[C, 2C)\<close> goes through lines 54-57, which clear exactly
  the \<open>delta - C + 1\<close> oldest slots, leave the other slots of the window as they were and
  advance the origin by \<open>delta - C + 1\<close>. The call then stores the packet and runs
  \<^verbatim>\<open>_remove_frame\<close>: when \<^verbatim>\<open>add\<close> returns nothing the origin has advanced by exactly
  \<open>delta - C + 1\<close>; when it returns a frame the origin has advanced further, by the number of
  packets of that frame.
\<close>

theorem overflow_eviction:
  assumes "reachable s" "origin s = Some og"
    "capacity s \<le> sequence_number p - og" "sequence_number p - og < 2 * capacity s"
  shows "\<exists>s1 x s'.
     add_fit s p = (Inr (), s1) \<and>
     origin s1 = Some (og + (sequence_number p - og - capacity s + 1)) \<and>
     (\<forall>t. og \<le> t \<and> t < og + capacity s \<longrightarrow>
        slot s1 t = (if t < og + (sequence_number p - og - capacity s + 1) then None
                     else slot s t)) \<and>
     add s p = (Inr x, s') \<and>
     origin s' = Some (og + (sequence_number p - og - capacity s + 1) +
                       (case x of None \<Rightarrow> 0 | Some f \<Rightarrow> int (length (packets f))))"
proof -
  let ?c = "capacity s"
  let ?e = "sequence_number p - og - ?c + 1"
  from assms(3,4) have c: "0 < ?c" by simp
  from reachable_inv [OF assms(1)] c have wf: "well_formed s" and inv: "window_inv s"
    by (auto simp: buffer_inv_cases)
  have e: "?e \<le> ?c" "0 < ?e" using assms(3,4) by simp_all
  have ao: "add_origin s p = (Inr True, s)"
    using assms(2,3) c by (simp add: add_origin_def MAX_MISORDER_def)
  have af: "add_fit s p = remove s ?e"
    using assms(2,3,4) by (simp add: add_fit_def Let_def)
  obtain r s1 where rm: "remove s ?e = (r, s1)" by (cases "remove s ?e")
  from remove_slots [OF wf assms(2) e(1) rm] e(2)
  have r: "r = Inr ()" and o1: "origin s1 = Some (og + ?e)"
    and sl: "\<forall>t. og \<le> t \<and> t < og + ?c \<longrightarrow> slot s1 t = (if t < og + ?e then None else slot s t)"
    by simp_all
  show ?thesis
  proof (rule add_decompose [OF wf inv, of p])
    fix og'
    assume "origin s = Some og'" "sequence_number p < og'"
    with assms(2,3) c show ?thesis by simp
  next
    fix s1' s2 og1 og2 x s4
    assume ao': "add_origin s p = (Inr True, s1')" and af': "add_fit s1' p = (Inr (), s2)"
      and o2: "origin s2 = Some og2" and run: "add s p = (Inr x, s4)"
      and none: "x = None \<Longrightarrow>
         s4 = s2\<lparr>buf_packets := (buf_packets s2)[nat (sequence_number p mod capacity s) := Some p]\<rparr>"
      and some: "\<And>f. x = Some f \<Longrightarrow> frame_ok (capacity s) og2 f \<and>
         origin s4 = Some (og2 + int (length (packets f)))"
    from ao ao' have "s1' = s" by simp
    with af af' rm have s2: "s2 = s1" by simp
    with o1 o2 have og2: "og2 = og + ?e" by simp
    have "origin s4 = Some (og + ?e + (case x of None \<Rightarrow> 0 | Some f \<Rightarrow> int (length (packets f))))"
    proof (cases x)
      case None
      with none o2 og2 show ?thesis by simp
    next
      case (Some f)
      with some og2 show ?thesis by simp
    qed
    with af rm r o1 sl run show ?thesis by auto
  qed
qed

text \<open>
  The statement for a buffer of capacity 4 with origin 0 that holds packets 0, 2, 3 and
  receives packet 4.
\<close>

theorem overflow_eviction_witness:
  "reachable \<lparr>capacity = 4, origin = Some 0,
              buf_packets = [Some (test_packet 0 1000 ''a''), None,
                             Some (test_packet 2 1000 ''c''), Some (test_packet 3 1000 ''d'')],
              prefetch = 0\<rparr> \<and>
   (4::int) \<le> sequence_number (test_packet 4 1000 ''e'') - 0 \<and>
   sequence_number (test_packet 4 1000 ''e'') - 0 < 2 * 4 \<and>
   (\<exists>s1 x s'.
     add_fit \<lparr>capacity = 4, origin = Some 0,
              buf_packets = [Some (test_packet 0 1000 ''a''), None,
                             Some (test_packet 2 1000 ''c''), Some (test_packet 3 1000 ''d'')],
              prefetch = 0\<rparr> (test_packet 4 1000 ''e'') = (Inr (), s1) \<and>
     origin s1 = Some 1 \<and>
     (\<forall>t. 0 \<le> t \<and> t < 4 \<longrightarrow>
        slot s1 t = (if t < 1 then None
                     else slot \<lparr>capacity = 4, origin = Some 0,
              buf_packets = [Some (test_packet 0 1000 ''a''), None,
                             Some (test_packet 2 1000 ''c''), Some (test_packet 3 1000 ''d'')],
              prefetch = 0\<rparr> t)) \<and>
     add \<lparr>capacity = 4, origin = Some 0,
              buf_packets = [Some (test_packet 0 1000 ''a''), None,
                             Some (test_packet 2 1000 ''c''), Some (test_packet 3 1000 ''d'')],
              prefetch = 0\<rparr> (test_packet 4 1000 ''e'') = (Inr x, s') \<and>
     origin s' = Some (1 + (case x of None \<Rightarrow> 0 | Some f \<Rightarrow> int (length (packets f)))))"
  using overflow_eviction [OF reachable_example_overflow, of 0 "test_packet 4 1000 ''e''"]
    reachable_example_overflow
  by simp

text \<open>
  A buffer of capacity 4 with origin 1 that holds packets 2, 3 (of different timestamps)
  and 4 receives packet 5: \<open>delta = 4\<close>, so one slot is evicted, and the scan that follows
  returns the frame of packet 2. The origin ends at 3, not at \<open>1 + (delta - C + 1) = 2\<close>.
\<close>

theorem overflow_eviction_counterexample:
  "snd (last (add_all \<lparr>capacity = 4, origin = None, buf_packets = [None, None, None, None],
                        prefetch = 0\<rparr>
     [test_packet 0 1000 ''a'', test_packet 2 1000 ''c'', test_packet 3 2000 ''d'',
      test_packet 4 2000 ''e''])) =
     \<lparr>capacity = 4, origin = Some 1,
       buf_packets = [Some (test_packet 4 2000 ''e''), None,
                      Some (test_packet 2 1000 ''c''), Some (test_packet 3 2000 ''d'')],
       prefetch = 0\<rparr> \<and>
   sequence_number (test_packet 5 2000 ''f'') - 1 = 4 \<and>
   add \<lparr>capacity = 4, origin = Some 1,
         buf_packets = [Some (test_packet 4 2000 ''e''), None,
                        Some (test_packet 2 1000 ''c''), Some (test_packet 3 2000 ''d'')],
         prefetch = 0\<rparr> (test_packet 5 2000 ''f'') =
     (Inr (Some \<lparr>data = ''c'', packets = [test_packet 2 1000 ''c''],
                  frame_timestamp = 1000, frame_ntp_timestamp = Some 0, frame_rtp_diff = 0\<rparr>),
      \<lparr>capacity = 4, origin = Some 3,
        buf_packets = [Some (test_packet 4 2000 ''e''), Some (test_packet 5 2000 ''f''),
                       None, Some (test_packet 3 2000 ''d'')],
        prefetch = 0\<rparr>) \<and>
   (3::int) \<noteq> 1 + (4 - 4 + 1)"
  by (simp add: run_simps test_packet_def)






end
